theory Spec2Isabelle
  imports Complex_Main
begin

section \<open>The 2048 rules engine of \<^verbatim>\<open>src/app/2048\<close> (Game2048)\<close>

text \<open>
  The engine lives in the second document of \<^verbatim>\<open>src/app/2048/page.tsx\<close>
  (the client component, source lines 46 onwards). The model follows it function by
  function: \<^verbatim>\<open>emptyCells\<close>, \<^verbatim>\<open>randomSpawn\<close>, \<^verbatim>\<open>canAnyMove\<close>,
  \<^verbatim>\<open>newGame\<close> and the state updater of \<^verbatim>\<open>move\<close>.

  \<^item> JavaScript numbers that index the board or name a tile (\<^verbatim>\<open>id\<close>, \<^verbatim>\<open>row\<close>,
    \<^verbatim>\<open>col\<close>) are natural numbers; tile values, scores and the best score are integers.
  \<^item> The tile objects of one \<^verbatim>\<open>move\<close> are shared between the array \<^verbatim>\<open>tiles\<close>, the
    \<^verbatim>\<open>grid\<close> and \<^verbatim>\<open>lineTiles\<close>, and are mutated in place. The model keeps them in
    a store (the list \<open>store\<close>, one entry per object) and the grid holds references:
    indices into that list.
  \<^item> \<^verbatim>\<open>grid[r]\<close> is an array for \<open>r < SIZE\<close> and \<^verbatim>\<open>undefined\<close> otherwise, so an
    access \<^verbatim>\<open>grid[r][c]\<close> with \<open>r \<ge> SIZE\<close> throws a TypeError, and so does reading a
    field of \<^verbatim>\<open>coords[i]\<close> when \<open>i\<close> is past the end of the line. Within a row,
    reading an unset column gives \<^verbatim>\<open>undefined\<close> and writing creates the entry: the
    grid is a partial map from cells to references.
  \<^item> The module variable \<^verbatim>\<open>idSeq\<close> is threaded through explicitly.
  \<^item> \<^verbatim>\<open>Math.random()\<close> returns a double of \<open>[0, 1)\<close>, and what the engine computes from a
    draw is a parameter of the model, a rational number: the double that
    \<^verbatim>\<open>Math.random() * empties.length\<close> evaluates to, and the draw that is compared with
    \<^verbatim>\<open>0.1\<close>. The product is rounded by the double multiplication, so the model does
    not recompute it from the draw; for a draw of \<open>[0, 1)\<close> and the at most 16 empty
    cells of a board it is a double from 0 up to, and not including, the number of
    empty cells. No double lies between \<open>1/10\<close> and the double \<^verbatim>\<open>0.1\<close>, so a draw is
    below \<^verbatim>\<open>0.1\<close> exactly when it is below \<open>1/10\<close>.
\<close>

subsection \<open>Data\<close>

datatype Direction = Up | Down | Left | Right

datatype error = TypeError

record Tile =
  idT :: nat
  row :: nat
  col :: nat
  valueT :: int
  spawned :: bool
  merged :: bool

record GameState =
  tiles :: "Tile list"
  score :: int
  best :: int
  won :: bool
  over :: bool

type_synonym cell = "nat \<times> nat"

type_synonym ref = nat

type_synonym grid = "cell \<Rightarrow> ref option"

definition SIZE :: nat where
  "SIZE = 4"

definition pos :: "Tile \<Rightarrow> cell" where
  "pos t = (row t, col t)"

subsection \<open>emptyCells, randomSpawn, canAnyMove\<close>

text \<open>
  \<^verbatim>\<open>emptyCells\<close> (lines 83 to 93). The set \<^verbatim>\<open>occupied\<close> holds the keys
  \<^verbatim>\<open>`${t.row},${t.col}`\<close>; two keys are equal exactly when the two pairs of numbers
  are, so the model keeps the pairs. The cells come out in row-major order.
\<close>

definition emptyCells :: "Tile list \<Rightarrow> cell list" where
  "emptyCells ts =
     (let occupied = set (map pos ts)
      in concat (map (\<lambda>r. concat (map (\<lambda>c. if (r, c) \<notin> occupied then [(r, c)] else [])
                                      [0..<SIZE])) [0..<SIZE]))"

text \<open>
  \<^verbatim>\<open>randomSpawn\<close> (lines 95 to 104). \<open>x\<close> is the value of the product
  \<^verbatim>\<open>Math.random() * empties.length\<close>, whose floor indexes \<^verbatim>\<open>empties\<close>, and \<open>u2\<close> is
  the draw that picks the value; neither is used when the board is full. An index
  outside \<^verbatim>\<open>empties\<close> would make the destructuring of \<^verbatim>\<open>undefined\<close> throw.
\<close>

definition randomSpawn :: "Tile list \<Rightarrow> nat \<Rightarrow> rat \<Rightarrow> rat \<Rightarrow> error + (Tile list \<times> nat)" where
  "randomSpawn ts idSeq x u2 =
     (let empties = emptyCells ts
      in if length empties = 0 then Inr (ts, idSeq)
         else let k = \<lfloor>x\<rfloor>
              in if k < 0 \<or> int (length empties) \<le> k then Inl TypeError
                 else let rc = empties ! nat k;
                          v = (if u2 < 1 / 10 then 4 else 2)
                      in Inr (ts @ [\<lparr>idT = idSeq, row = fst rc, col = snd rc, valueT = v,
                                      spawned = True, merged = False\<rparr>], idSeq + 1))"

text \<open>
  The grid of lines 110 to 111 and 160 to 161: every tile is written at its own cell, a
  later tile replacing an earlier one at the same cell. References are positions in
  the tile array.
\<close>

definition grid_put :: "Tile list \<Rightarrow> ref \<Rightarrow> grid \<Rightarrow> grid" where
  "grid_put ts p g = g(pos (ts ! p) \<mapsto> p)"

definition build_grid :: "Tile list \<Rightarrow> error + grid" where
  "build_grid ts =
     (if \<exists>t \<in> set ts. SIZE \<le> row t then Inl TypeError
      else Inr (fold (grid_put ts) [0..<length ts] Map.empty))"

text \<open>The value read by \<^verbatim>\<open>grid[r][c]?.value\<close>.\<close>

definition cell_value :: "Tile list \<Rightarrow> grid \<Rightarrow> cell \<Rightarrow> int option" where
  "cell_value ts g c = map_option (\<lambda>p. valueT (ts ! p)) (g c)"

text \<open>
  \<^verbatim>\<open>canAnyMove\<close> (lines 106 to 121). The scan returns at the first cell whose lower
  or right neighbour holds the same value; it has no effect, so its result is whether
  such a cell exists.
\<close>

definition canAnyMove :: "Tile list \<Rightarrow> error + bool" where
  "canAnyMove ts =
     (if length (emptyCells ts) > 0 then Inr True
      else case build_grid ts of
             Inl e \<Rightarrow> Inl e
           | Inr g \<Rightarrow>
               Inr (list_ex (\<lambda>r. list_ex (\<lambda>c.
                      case cell_value ts g (r, c) of
                        None \<Rightarrow> False
                      | Some v \<Rightarrow>
                          (r + 1 < SIZE \<and> cell_value ts g (r + 1, c) = Some v) \<or>
                          (c + 1 < SIZE \<and> cell_value ts g (r, c + 1) = Some v))
                    [0..<SIZE]) [0..<SIZE]))"

subsection \<open>newGame\<close>

text \<open>
  \<^verbatim>\<open>newGame\<close> (lines 141 to 147): \<^verbatim>\<open>idSeq\<close> restarts at 1, two tiles are spawned on
  the empty board, and the state keeps every other field, \<^verbatim>\<open>best\<close> among them.
\<close>

definition newGame :: "rat \<Rightarrow> rat \<Rightarrow> rat \<Rightarrow> rat \<Rightarrow> GameState \<Rightarrow> error + (GameState \<times> nat)" where
  "newGame x1 u2 x3 u4 s =
     (case randomSpawn [] 1 x1 u2 of
        Inl e \<Rightarrow> Inl e
      | Inr (ts1, idSeq1) \<Rightarrow>
          (case randomSpawn ts1 idSeq1 x3 u4 of
             Inl e \<Rightarrow> Inl e
           | Inr (ts2, idSeq2) \<Rightarrow>
               Inr (s\<lparr>tiles := ts2, score := 0, won := False, over := False\<rparr>, idSeq2)))"

subsection \<open>move\<close>

text \<open>The lines of cells, leading cell first (lines 163 to 174).\<close>

definition lines :: "Direction \<Rightarrow> cell list list" where
  "lines dir =
     (if dir = Left \<or> dir = Right
      then map (\<lambda>r. let line = map (\<lambda>i. (r, i)) [0..<SIZE]
                     in if dir = Left then line else rev line) [0..<SIZE]
      else map (\<lambda>c. let line = map (\<lambda>i. (i, c)) [0..<SIZE]
                     in if dir = Up then line else rev line) [0..<SIZE])"

text \<open>
  The variables the loop over the lines updates: the tile objects, the grid and the
  three accumulators of lines 176 to 178.
\<close>

record lstate =
  store :: "Tile list"
  grid :: grid
  moved :: bool
  scoreGain :: int
  toRemove :: "nat set"

text \<open>The tiles of a line in travel order (lines 182 to 186).\<close>

fun lineTiles :: "grid \<Rightarrow> cell list \<Rightarrow> ref list" where
  "lineTiles g [] = []"
| "lineTiles g (c # cs) = (case g c of None \<Rightarrow> lineTiles g cs | Some t \<Rightarrow> t # lineTiles g cs)"

text \<open>
  The loop of lines 224 to 227, which walks past occupied destination cells. Walking
  off the line reads a field of \<^verbatim>\<open>undefined\<close>.
\<close>

function advance :: "grid \<Rightarrow> cell list \<Rightarrow> nat \<Rightarrow> error + nat" where
  "advance g coords targetIndex =
     (if length coords \<le> targetIndex then Inl TypeError
      else if g (coords ! targetIndex) \<noteq> None then advance g coords (targetIndex + 1)
      else Inr targetIndex)"
  by pat_completeness auto
termination
  by (relation "measure (\<lambda>(g, coords, targetIndex). length coords - targetIndex)") auto

declare advance.simps [simp del]

text \<open>
  One round of the inner loop (lines 192 to 231) for the tile \<open>cur\<close>, from the loop
  state and the target index to the next ones.
\<close>

definition place :: "cell list \<Rightarrow> ref \<Rightarrow> lstate \<Rightarrow> nat \<Rightarrow> error + (lstate \<times> nat)" where
  "place coords cur st targetIndex =
     (let current = store st ! cur
      in if 0 < targetIndex \<and> length coords \<le> targetIndex - 1 then Inl TypeError
         else if 0 < targetIndex \<and>
                 (case grid st (coords ! (targetIndex - 1)) of
                    None \<Rightarrow> False
                  | Some p \<Rightarrow> valueT (store st ! p) = valueT current \<and> \<not> merged (store st ! p))
         then (case grid st (coords ! (targetIndex - 1)) of
                 None \<Rightarrow> Inl TypeError
               | Some p \<Rightarrow>
                   let prevPos = coords ! (targetIndex - 1);
                       prevTile = store st ! p
                   in if SIZE \<le> row current then Inl TypeError
                      else Inr (st\<lparr>grid := (grid st)(pos current := None),
                                   moved := (moved st \<or> row current \<noteq> fst prevPos
                                               \<or> col current \<noteq> snd prevPos),
                                   store := (store st)[p := prevTile\<lparr>valueT := valueT prevTile * 2,
                                                                      merged := True\<rparr>],
                                   scoreGain := scoreGain st + valueT prevTile * 2,
                                   toRemove := insert (idT current) (toRemove st)\<rparr>,
                                targetIndex))
         else if length coords \<le> targetIndex then Inl TypeError
         else if SIZE \<le> row current then Inl TypeError
         else let g1 = (grid st)(pos current := None)
              in case advance g1 coords targetIndex of
                   Inl e \<Rightarrow> Inl e
                 | Inr ti \<Rightarrow>
                     let targetPos = coords ! ti
                     in Inr (st\<lparr>moved := (moved st \<or> pos current \<noteq> coords ! targetIndex),
                                 grid := g1(targetPos \<mapsto> cur),
                                 store := (store st)[cur := current\<lparr>row := fst targetPos,
                                                                   col := snd targetPos\<rparr>]\<rparr>,
                             ti + 1))"

text \<open>The inner loop over the tiles of one line (lines 191 to 232).\<close>

fun place_all :: "cell list \<Rightarrow> ref list \<Rightarrow> lstate \<Rightarrow> nat \<Rightarrow> error + lstate" where
  "place_all coords [] st targetIndex = Inr st"
| "place_all coords (cur # rest) st targetIndex =
     (case place coords cur st targetIndex of
        Inl e \<Rightarrow> Inl e
      | Inr (st', targetIndex') \<Rightarrow> place_all coords rest st' targetIndex')"

text \<open>The body of the loop over the lines (lines 181 to 232).\<close>

definition resolve_line :: "cell list \<Rightarrow> lstate \<Rightarrow> error + lstate" where
  "resolve_line coords st =
     (let lt = lineTiles (grid st) coords
      in if length lt = 0 then Inr st else place_all coords lt st 0)"

fun resolve_lines :: "cell list list \<Rightarrow> lstate \<Rightarrow> error + lstate" where
  "resolve_lines [] st = Inr st"
| "resolve_lines (coords # ls) st =
     (case resolve_line coords st of
        Inl e \<Rightarrow> Inl e
      | Inr st' \<Rightarrow> resolve_lines ls st')"

text \<open>The copy of a tile made at line 157.\<close>

definition clear_flags :: "Tile \<Rightarrow> Tile" where
  "clear_flags t = t\<lparr>merged := False, spawned := False\<rparr>"

text \<open>
  Lines 157 to 233 of \<^verbatim>\<open>move\<close>: the copies of the tiles with their flags cleared,
  the grid, and the loop over the lines.
\<close>

definition resolve :: "Direction \<Rightarrow> Tile list \<Rightarrow> error + lstate" where
  "resolve dir prevTiles =
     (let ts = map clear_flags prevTiles
      in case build_grid ts of
           Inl e \<Rightarrow> Inl e
         | Inr g \<Rightarrow>
             resolve_lines (lines dir)
               \<lparr>store = ts, grid = g, moved = False, scoreGain = 0, toRemove = {}\<rparr>)"

text \<open>The tiles that survive the merges (line 236).\<close>

definition filtered :: "lstate \<Rightarrow> Tile list" where
  "filtered st = filter (\<lambda>t. idT t \<notin> toRemove st) (store st)"

text \<open>
  The state updater of \<^verbatim>\<open>move\<close> (lines 156 to 250). \<^verbatim>\<open>canAnyMove\<close> is not
  called when \<^verbatim>\<open>won\<close> holds.
\<close>

definition move :: "Direction \<Rightarrow> rat \<Rightarrow> rat \<Rightarrow> GameState \<Rightarrow> nat \<Rightarrow> error + (GameState \<times> nat)" where
  "move dir x u2 prev idSeq =
     (case resolve dir (tiles prev) of
        Inl e \<Rightarrow> Inl e
      | Inr st \<Rightarrow>
          let won' = (won prev \<or> list_ex (\<lambda>t. 2048 \<le> valueT t) (filtered st))
          in case (if moved st then randomSpawn (filtered st) idSeq x u2
                   else Inr (filtered st, idSeq)) of
               Inl e \<Rightarrow> Inl e
             | Inr (nextTiles, idSeq') \<Rightarrow>
                 (case (if won' then Inr True else canAnyMove nextTiles) of
                    Inl e \<Rightarrow> Inl e
                  | Inr can \<Rightarrow>
                      let score' = score prev + scoreGain st
                      in Inr (\<lparr>tiles = nextTiles, score = score',
                               best = max (best prev) score',
                               won = won', over = (\<not> won' \<and> \<not> can)\<rparr>, idSeq')))"

definition in_board :: "cell \<Rightarrow> bool" where
  "in_board c = (fst c < SIZE \<and> snd c < SIZE)"

definition grid_ok :: "lstate \<Rightarrow> bool" where
  "grid_ok st = (\<forall>c p. grid st c = Some p \<longrightarrow>
                    p < length (store st) \<and> pos (store st ! p) = c \<and> in_board c)"

function is_pow2 :: "int \<Rightarrow> bool" where
  "is_pow2 v = (if v < 2 then False else if v = 2 then True else even v \<and> is_pow2 (v div 2))"
  by pat_completeness auto
termination
  by (relation "measure nat") auto
declare is_pow2.simps [simp del]

definition covered :: "lstate \<Rightarrow> bool" where
  "covered st = (\<forall>p < length (store st).
                   grid st (pos (store st ! p)) = Some p \<or> idT (store st ! p) \<in> toRemove st)"

definition has_empty :: "lstate \<Rightarrow> bool" where
  "has_empty st = (\<exists>c. in_board c \<and> grid st c = None)"

definition loop_inv :: "lstate \<Rightarrow> bool" where
  "loop_inv st = (grid_ok st \<and> covered st \<and> (moved st \<longrightarrow> has_empty st) \<and>
                  (\<forall>t \<in> set (store st). is_pow2 (valueT t)))"

definition step_rel :: "lstate \<Rightarrow> lstate \<Rightarrow> bool" where
  "step_rel st st' = ((moved st \<longrightarrow> moved st') \<and> (\<not> moved st' \<longrightarrow> st' = st) \<and>
                      map idT (store st') = map idT (store st))"

definition line_ok :: "cell list \<Rightarrow> bool" where
  "line_ok coords = (distinct coords \<and> (\<forall>c \<in> set coords. in_board c))"

definition board_ok :: "Tile list \<Rightarrow> bool" where
  "board_ok ts = (distinct (map pos ts) \<and> (\<forall>t \<in> set ts. in_board (pos t)) \<and>
                  (\<forall>t \<in> set ts. is_pow2 (valueT t)))"

definition init_state :: "Tile list \<Rightarrow> grid \<Rightarrow> lstate" where
  "init_state ts g = \<lparr>store = ts, grid = g, moved = False, scoreGain = 0, toRemove = {}\<rparr>"

definition spawn_tile :: "nat \<Rightarrow> cell \<Rightarrow> int \<Rightarrow> Tile" where
  "spawn_tile i c v = \<lparr>idT = i, row = fst c, col = snd c, valueT = v, spawned = True, merged = False\<rparr>"

datatype op = Move Direction rat rat | NewGame rat rat rat rat

fun is_move :: "op \<Rightarrow> bool" where
  "is_move (Move dir x u2) = True"
| "is_move (NewGame x1 u2 x3 u4) = False"

fun apply_op :: "op \<Rightarrow> GameState \<times> nat \<Rightarrow> error + (GameState \<times> nat)" where
  "apply_op (Move dir x u2) (s, idSeq) = move dir x u2 s idSeq"
| "apply_op (NewGame x1 u2 x3 u4) (s, idSeq) = newGame x1 u2 x3 u4 s"

fun run :: "op list \<Rightarrow> GameState \<times> nat \<Rightarrow> error + (GameState \<times> nat) list" where
  "run [] w = Inr []"
| "run (a # ops) w =
     (case apply_op a w of
        Inl e \<Rightarrow> Inl e
      | Inr w' \<Rightarrow> (case run ops w' of Inl e \<Rightarrow> Inl e | Inr tr \<Rightarrow> Inr (w' # tr)))"

definition final :: "GameState \<times> nat \<Rightarrow> (GameState \<times> nat) list \<Rightarrow> GameState" where
  "final w tr = fst (last (w # tr))"

definition move_scores :: "op list \<Rightarrow> (GameState \<times> nat) list \<Rightarrow> int list" where
  "move_scores ops tr = map (\<lambda>(a, w). score (fst w)) (filter (\<lambda>(a, w). is_move a) (zip ops tr))"

definition c7_state :: GameState where
  "c7_state = \<lparr>tiles = [\<lparr>idT = 1, row = 0, col = 0, valueT = 2, spawned = True, merged = False\<rparr>,
                         \<lparr>idT = 2, row = 0, col = 1, valueT = 4, spawned = True, merged = False\<rparr>],
                score = 0, best = 10, won = False, over = False\<rparr>"

definition c7_after :: GameState where
  "c7_after = \<lparr>tiles = [\<lparr>idT = 1, row = 0, col = 2, valueT = 2, spawned = False, merged = False\<rparr>,
                         \<lparr>idT = 2, row = 0, col = 3, valueT = 4, spawned = False, merged = False\<rparr>,
                         \<lparr>idT = 3, row = 0, col = 0, valueT = 2, spawned = True, merged = False\<rparr>],
                score = 0, best = 10, won = False, over = False\<rparr>"

definition c7_ops :: "op list" where
  "c7_ops = [Move Right 0 (1 / 2), Move Left 0 (1 / 2), NewGame 0 0 (15 / 2) (1 / 2),
             Move Up 7 (1 / 2)]"

definition c7_trace :: "(GameState \<times> nat) list" where
  "c7_trace =
     [(\<lparr>tiles = [\<lparr>idT = 1, row = 0, col = 2, valueT = 2, spawned = False, merged = False\<rparr>,
                 \<lparr>idT = 2, row = 0, col = 3, valueT = 4, spawned = False, merged = False\<rparr>,
                 \<lparr>idT = 3, row = 0, col = 0, valueT = 2, spawned = True, merged = False\<rparr>],
        score = 0, best = 2, won = False, over = False\<rparr>, 4),
      (\<lparr>tiles = [\<lparr>idT = 2, row = 0, col = 1, valueT = 4, spawned = False, merged = False\<rparr>,
                 \<lparr>idT = 3, row = 0, col = 0, valueT = 4, spawned = False, merged = True\<rparr>,
                 \<lparr>idT = 4, row = 0, col = 2, valueT = 2, spawned = True, merged = False\<rparr>],
        score = 4, best = 4, won = False, over = False\<rparr>, 5),
      (\<lparr>tiles = [\<lparr>idT = 1, row = 0, col = 0, valueT = 4, spawned = True, merged = False\<rparr>,
                 \<lparr>idT = 2, row = 2, col = 0, valueT = 2, spawned = True, merged = False\<rparr>],
        score = 0, best = 4, won = False, over = False\<rparr>, 3),
      (\<lparr>tiles = [\<lparr>idT = 1, row = 0, col = 0, valueT = 4, spawned = False, merged = False\<rparr>,
                 \<lparr>idT = 2, row = 1, col = 0, valueT = 2, spawned = False, merged = False\<rparr>,
                 \<lparr>idT = 3, row = 2, col = 1, valueT = 2, spawned = True, merged = False\<rparr>],
        score = 0, best = 4, won = False, over = False\<rparr>, 4)]"

definition c4_state :: GameState where
  "c4_state = \<lparr>tiles = [\<lparr>idT = 7, row = 1, col = 0, valueT = 1024, spawned = False, merged = False\<rparr>,
                         \<lparr>idT = 9, row = 1, col = 2, valueT = 1024, spawned = False, merged = True\<rparr>,
                         \<lparr>idT = 10, row = 2, col = 1, valueT = 1024, spawned = False, merged = True\<rparr>,
                         \<lparr>idT = 12, row = 2, col = 3, valueT = 1024, spawned = True, merged = False\<rparr>],
                score = 20000, best = 20000, won = False, over = False\<rparr>"

definition c4_ops :: "op list" where
  "c4_ops = [Move Left 0 (1 / 2), Move Up 0 (1 / 2), Move Down 0 (1 / 2)]"

definition c4_trace :: "(GameState \<times> nat) list" where
  "c4_trace =
     [(\<lparr>tiles = [\<lparr>idT = 7, row = 1, col = 0, valueT = 2048, spawned = False, merged = True\<rparr>,
                 \<lparr>idT = 10, row = 2, col = 0, valueT = 2048, spawned = False, merged = True\<rparr>,
                 \<lparr>idT = 13, row = 0, col = 0, valueT = 2, spawned = True, merged = False\<rparr>],
        score = 24096, best = 24096, won = True, over = False\<rparr>, 14),
      (\<lparr>tiles = [\<lparr>idT = 7, row = 1, col = 0, valueT = 4096, spawned = False, merged = True\<rparr>,
                 \<lparr>idT = 13, row = 0, col = 0, valueT = 2, spawned = False, merged = False\<rparr>,
                 \<lparr>idT = 14, row = 0, col = 1, valueT = 2, spawned = True, merged = False\<rparr>],
        score = 28192, best = 28192, won = True, over = False\<rparr>, 15),
      (\<lparr>tiles = [\<lparr>idT = 7, row = 3, col = 0, valueT = 4096, spawned = False, merged = False\<rparr>,
                 \<lparr>idT = 13, row = 2, col = 0, valueT = 2, spawned = False, merged = False\<rparr>,
                 \<lparr>idT = 14, row = 3, col = 1, valueT = 2, spawned = False, merged = False\<rparr>,
                 \<lparr>idT = 15, row = 0, col = 0, valueT = 2, spawned = True, merged = False\<rparr>],
        score = 28192, best = 28192, won = True, over = False\<rparr>, 16)]"

definition adjacent :: "cell \<Rightarrow> cell \<Rightarrow> bool" where
  "adjacent a b =
     ((fst a = fst b \<and> (snd a + 1 = snd b \<or> snd b + 1 = snd a)) \<or>
      (snd a = snd b \<and> (fst a + 1 = fst b \<or> fst b + 1 = fst a)))"

definition has_equal_neighbours :: "Tile list \<Rightarrow> bool" where
  "has_equal_neighbours ts =
     (\<exists>t1 \<in> set ts. \<exists>t2 \<in> set ts. adjacent (pos t1) (pos t2) \<and> valueT t1 = valueT t2)"

definition state_ok :: "GameState \<Rightarrow> bool" where
  "state_ok s = (board_ok (tiles s) \<and> (over s \<longleftrightarrow> \<not> won s \<and> canAnyMove (tiles s) = Inr False))"

definition startup :: "int \<Rightarrow> GameState" where
  "startup b = \<lparr>tiles = [], score = 0, best = b, won = False, over = False\<rparr>"

text \<open>
  What the loop over the lines hands to the rest of \<^verbatim>\<open>move\<close>: the surviving tiles
  (\<^verbatim>\<open>filtered\<close>, line 236), \<^verbatim>\<open>scoreGain\<close> and \<^verbatim>\<open>moved\<close>.
\<close>

definition resolved :: "Direction \<Rightarrow> Tile list \<Rightarrow> error + (Tile list \<times> int \<times> bool)" where
  "resolved dir ts =
     (case resolve dir ts of
        Inl e \<Rightarrow> Inl e
      | Inr st \<Rightarrow> Inr (filtered st, scoreGain st, moved st))"

definition tile :: "nat \<Rightarrow> nat \<Rightarrow> nat \<Rightarrow> int \<Rightarrow> Tile" where
  "tile i r c v = \<lparr>idT = i, row = r, col = c, valueT = v, spawned = False, merged = False\<rparr>"

definition row_2222 :: "Tile list" where
  "row_2222 = [tile 1 0 0 2, tile 2 0 1 2, tile 3 0 2 2, tile 4 0 3 2]"

definition row_2_4_8_16 :: "Tile list" where
  "row_2_4_8_16 = [tile 1 0 0 2, tile 2 0 1 4, tile 3 0 2 8, (tile 4 0 3 16)\<lparr>spawned := True\<rparr>]"

definition nearly_full :: "Tile list" where
  "nearly_full =
     [tile 1 0 1 2, tile 2 0 2 4, tile 3 0 3 2,
      tile 4 1 0 4, tile 5 1 1 2, tile 6 1 2 4, tile 7 1 3 2,
      tile 8 2 0 2, tile 9 2 1 4, tile 10 2 2 2, tile 11 2 3 4,
      tile 12 3 0 4, tile 13 3 1 2, tile 14 3 2 4, tile 15 3 3 2]"

definition full_after :: "Tile list" where
  "full_after =
     [tile 1 0 0 2, tile 2 0 1 4, tile 3 0 2 2,
      tile 4 1 0 4, tile 5 1 1 2, tile 6 1 2 4, tile 7 1 3 2,
      tile 8 2 0 2, tile 9 2 1 4, tile 10 2 2 2, tile 11 2 3 4,
      tile 12 3 0 4, tile 13 3 1 2, tile 14 3 2 4, tile 15 3 3 2,
      (tile 16 0 3 4)\<lparr>spawned := True\<rparr>]"

definition game :: "Tile list \<Rightarrow> GameState" where
  "game ts = \<lparr>tiles = ts, score = 28, best = 40, won = False, over = False\<rparr>"

text \<open>
  Invariants of the loop used for the claims about one line. \<open>live\<close>: the ids of the
  tiles are distinct and no tile on the grid has been marked for removal. \<open>frame\<close>:
  outside a line, the grid and the tiles it refers to are unchanged. \<open>agree\<close>: the
  same on the cells of a line.
\<close>

definition live :: "lstate \<Rightarrow> bool" where
  "live st = (distinct (map idT (store st)) \<and>
              (\<forall>c p. grid st c = Some p \<longrightarrow> idT (store st ! p) \<notin> toRemove st))"

definition frame :: "cell list \<Rightarrow> lstate \<Rightarrow> lstate \<Rightarrow> bool" where
  "frame coords st0 st =
     (\<forall>c. c \<notin> set coords \<longrightarrow>
        grid st c = grid st0 c \<and> (\<forall>p. grid st0 c = Some p \<longrightarrow> store st ! p = store st0 ! p))"

text \<open>
  The value of the tile on a cell of a board, if there is one.
\<close>

definition value_at :: "Tile list \<Rightarrow> cell \<Rightarrow> int option" where
  "value_at ts c = map_option valueT (find (\<lambda>t. pos t = c) ts)"

text \<open>
  The loop over the lines stopped after its first \<open>n\<close> lines, and the score gained
  up to there.
\<close>

definition resolve_upto :: "nat \<Rightarrow> Direction \<Rightarrow> Tile list \<Rightarrow> error + lstate" where
  "resolve_upto n dir prevTiles =
     (let ts = map clear_flags prevTiles
      in case build_grid ts of
           Inl e \<Rightarrow> Inl e
         | Inr g \<Rightarrow>
             resolve_lines (take n (lines dir))
               \<lparr>store = ts, grid = g, moved = False, scoreGain = 0, toRemove = {}\<rparr>)"

definition gain_upto :: "nat \<Rightarrow> Direction \<Rightarrow> Tile list \<Rightarrow> error + int" where
  "gain_upto n dir ts =
     (case resolve_upto n dir ts of Inl e \<Rightarrow> Inl e | Inr st \<Rightarrow> Inr (scoreGain st))"

definition agree :: "cell list \<Rightarrow> lstate \<Rightarrow> lstate \<Rightarrow> bool" where
  "agree coords st0 st =
     (\<forall>c \<in> set coords.
        grid st c = grid st0 c \<and> (\<forall>p. grid st0 c = Some p \<longrightarrow> store st ! p = store st0 ! p))"

text \<open>
  The ids of the tiles of a state are distinct and below \<^verbatim>\<open>idSeq\<close>. The initial state
  has this property and \<^verbatim>\<open>move\<close> and \<^verbatim>\<open>newGame\<close> keep it.
\<close>

definition ids_ok :: "GameState \<times> nat \<Rightarrow> bool" where
  "ids_ok w = (distinct (map idT (tiles (fst w))) \<and> (\<forall>t \<in> set (tiles (fst w)). idT t < snd w))"

text \<open>
  Every tile of the board \<open>brd\<close> left by the loop is a tile of the board \<open>ts\<close> it
  started from, with its value unchanged, or doubled once and the flag \<^verbatim>\<open>merged\<close> set.
\<close>

definition merged_once :: "Tile list \<Rightarrow> Tile list \<Rightarrow> bool" where
  "merged_once ts brd =
     (\<forall>t' \<in> set brd. \<exists>t \<in> set ts. idT t' = idT t \<and>
        (if merged t' then valueT t' = valueT t * 2 else valueT t' = valueT t))"

text \<open>The same property for the tile objects during the loop, position by position.\<close>

definition once :: "Tile list \<Rightarrow> lstate \<Rightarrow> bool" where
  "once ts st =
     (length (store st) = length ts \<and>
      (\<forall>p < length ts. idT (store st ! p) = idT (ts ! p) \<and>
         (merged (store st ! p) \<longrightarrow> valueT (store st ! p) = valueT (ts ! p) * 2) \<and>
         (\<not> merged (store st ! p) \<longrightarrow> valueT (store st ! p) = valueT (ts ! p))))"

text \<open>
  Two boards: a column with 2, 2, 4, 4 from top to bottom and one more tile, and a row
  with four 2s between two other tiles.
\<close>

definition col_2244 :: "Tile list" where
  "col_2244 = [tile 1 0 1 2, tile 2 1 1 2, tile 3 2 1 4, tile 4 3 1 4, tile 5 3 3 2]"

definition board_2222 :: "Tile list" where
  "board_2222 = [tile 1 0 0 4, tile 2 1 0 2, tile 3 1 1 2, tile 4 1 2 2, tile 5 1 3 2, tile 6 3 3 2]"

section \<open>Invariants of the board and of the loop over the lines\<close>

lemma lineTiles_outside: "c \<notin> set cs \<Longrightarrow> lineTiles (g(c := v)) cs = lineTiles g cs"
  by (induction cs) (auto split: option.splits)

lemma grid_okD:
  "grid_ok st \<Longrightarrow> grid st c = Some p \<Longrightarrow>
   p < length (store st) \<and> pos (store st ! p) = c \<and> in_board c"
  unfolding grid_ok_def by blast

lemma lineTiles_first:
  "lineTiles g (drop ti coords) = cur # rest \<Longrightarrow>
   \<exists>j. ti \<le> j \<and> j < length coords \<and> g (coords ! j) = Some cur \<and>
       (\<forall>i. ti \<le> i \<and> i < j \<longrightarrow> g (coords ! i) = None) \<and>
       lineTiles g (drop (Suc j) coords) = rest"
proof (induction "length coords - ti" arbitrary: ti)
  case 0
  then show ?case by simp
next
  case (Suc n)
  then have lt: "ti < length coords" by simp
  then have d: "drop ti coords = coords ! ti # drop (Suc ti) coords"
    by (simp add: Cons_nth_drop_Suc)
  show ?case
  proof (cases "g (coords ! ti)")
    case None
    with Suc.prems d have "lineTiles g (drop (Suc ti) coords) = cur # rest" by simp
    moreover from Suc.hyps(2) have "n = length coords - Suc ti" by simp
    ultimately obtain j where j: "Suc ti \<le> j" "j < length coords" "g (coords ! j) = Some cur"
        "\<forall>i. Suc ti \<le> i \<and> i < j \<longrightarrow> g (coords ! i) = None"
        "lineTiles g (drop (Suc j) coords) = rest"
      using Suc.hyps(1) by blast
    have "\<forall>i. ti \<le> i \<and> i < j \<longrightarrow> g (coords ! i) = None"
    proof (intro allI impI)
      fix i assume "ti \<le> i \<and> i < j"
      then show "g (coords ! i) = None"
        using None j(4) by (cases "i = ti") auto
    qed
    with j show ?thesis by (intro exI[of _ j]) auto
  next
    case (Some q)
    with Suc.prems d have "q = cur" "lineTiles g (drop (Suc ti) coords) = rest" by simp_all
    with Some lt show ?thesis by (intro exI[of _ ti]) auto
  qed
qed

lemma lineTiles_skip:
  "ti \<le> j \<Longrightarrow> j \<le> length coords \<Longrightarrow> (\<forall>i. ti \<le> i \<and> i < j \<longrightarrow> g (coords ! i) = None) \<Longrightarrow>
   lineTiles g (drop ti coords) = lineTiles g (drop j coords)"
proof (induction "j - ti" arbitrary: ti)
  case 0
  then show ?case by simp
next
  case (Suc n)
  then have lt: "ti < j" "ti < length coords" by simp_all
  then have d: "drop ti coords = coords ! ti # drop (Suc ti) coords"
    by (simp add: Cons_nth_drop_Suc)
  from Suc.prems lt have "g (coords ! ti) = None" by simp
  moreover have "lineTiles g (drop (Suc ti) coords) = lineTiles g (drop j coords)"
    using Suc.hyps(1)[of "Suc ti"] Suc.hyps(2) Suc.prems lt by simp
  ultimately show ?case using d by simp
qed

lemma advance_free: "ti < length coords \<Longrightarrow> g (coords ! ti) = None \<Longrightarrow> advance g coords ti = Inr ti"
  by (simp add: advance.simps)

lemma place_cases:
  assumes ok: "grid_ok st" and dist: "distinct coords"
    and lt: "lineTiles (grid st) (drop ti coords) = cur # rest"
  obtains
    (merge) j p where "0 < ti" "ti \<le> j" "j < length coords" "grid st (coords ! j) = Some cur"
      "\<forall>i. ti \<le> i \<and> i < j \<longrightarrow> grid st (coords ! i) = None"
      "lineTiles (grid st) (drop (Suc j) coords) = rest"
      "grid st (coords ! (ti - 1)) = Some p"
      "valueT (store st ! p) = valueT (store st ! cur)" "\<not> merged (store st ! p)"
      "place coords cur st ti =
         Inr (st\<lparr>grid := (grid st)(coords ! j := None),
                 moved := True,
                 store := (store st)[p := (store st ! p)\<lparr>valueT := valueT (store st ! p) * 2,
                                                        merged := True\<rparr>],
                 scoreGain := scoreGain st + valueT (store st ! p) * 2,
                 toRemove := insert (idT (store st ! cur)) (toRemove st)\<rparr>, ti)"
  | (slide) j where "ti \<le> j" "j < length coords" "grid st (coords ! j) = Some cur"
      "\<forall>i. ti \<le> i \<and> i < j \<longrightarrow> grid st (coords ! i) = None"
      "lineTiles (grid st) (drop (Suc j) coords) = rest"
      "place coords cur st ti =
         Inr (st\<lparr>moved := (moved st \<or> j \<noteq> ti),
                 grid := (grid st)(coords ! j := None, coords ! ti \<mapsto> cur),
                 store := (store st)[cur := (store st ! cur)\<lparr>row := fst (coords ! ti),
                                                            col := snd (coords ! ti)\<rparr>]\<rparr>, Suc ti)"
proof -
  from lineTiles_first[OF lt] obtain j where j: "ti \<le> j" "j < length coords"
      "grid st (coords ! j) = Some cur"
      "\<forall>i. ti \<le> i \<and> i < j \<longrightarrow> grid st (coords ! i) = None"
      "lineTiles (grid st) (drop (Suc j) coords) = rest"
    by blast
  from ok j(3) have cur: "cur < length (store st)" "pos (store st ! cur) = coords ! j"
      "in_board (coords ! j)"
    using grid_okD by blast+
  then have rowb: "row (store st ! cur) < SIZE"
    by (metis in_board_def pos_def fst_conv)
  have neq: "i < length coords \<Longrightarrow> i \<noteq> j \<Longrightarrow> coords ! i \<noteq> coords ! j" for i
    using dist j(2) by (simp add: nth_eq_iff_index_eq)
  let ?mergeable = "0 < ti \<and> (case grid st (coords ! (ti - 1)) of None \<Rightarrow> False
        | Some p \<Rightarrow> valueT (store st ! p) = valueT (store st ! cur) \<and> \<not> merged (store st ! p))"
  show thesis
  proof (cases ?mergeable)
    case True
    then obtain p where p: "0 < ti" "grid st (coords ! (ti - 1)) = Some p"
        "valueT (store st ! p) = valueT (store st ! cur)" "\<not> merged (store st ! p)"
      by (auto split: option.splits)
    have "coords ! (ti - 1) \<noteq> coords ! j"
      using neq[of "ti - 1"] p(1) j(1,2) by simp
    then have mv: "row (store st ! cur) \<noteq> fst (coords ! (ti - 1)) \<or>
                   col (store st ! cur) \<noteq> snd (coords ! (ti - 1))"
      using cur(2) by (auto simp: pos_def prod_eq_iff)
    have "place coords cur st ti =
         Inr (st\<lparr>grid := (grid st)(coords ! j := None),
                 moved := True,
                 store := (store st)[p := (store st ! p)\<lparr>valueT := valueT (store st ! p) * 2,
                                                        merged := True\<rparr>],
                 scoreGain := scoreGain st + valueT (store st ! p) * 2,
                 toRemove := insert (idT (store st ! cur)) (toRemove st)\<rparr>, ti)"
      using p j(1,2) rowb mv cur(2) by (simp add: place_def Let_def)
    with p j show ?thesis by (rule_tac merge)
  next
    case False
    have free: "((grid st)(coords ! j := None)) (coords ! ti) = None"
      using j(1,4) by (cases "j = ti") auto
    have adv: "advance ((grid st)(coords ! j := None)) coords ti = Inr ti"
      using j(1,2) free by (intro advance_free) auto
    have m: "(pos (store st ! cur) \<noteq> coords ! ti) = (j \<noteq> ti)"
    proof (cases "j = ti")
      case True
      then show ?thesis using cur(2) by simp
    next
      case False
      moreover have "ti < length coords" using j(1,2) by simp
      ultimately have "coords ! ti \<noteq> coords ! j" using neq[of ti] by simp
      then show ?thesis using cur(2) False by simp
    qed
    have "place coords cur st ti =
         Inr (st\<lparr>moved := (moved st \<or> j \<noteq> ti),
                 grid := (grid st)(coords ! j := None, coords ! ti \<mapsto> cur),
                 store := (store st)[cur := (store st ! cur)\<lparr>row := fst (coords ! ti),
                                                            col := snd (coords ! ti)\<rparr>]\<rparr>, Suc ti)"
      using False j(1,2) rowb adv m cur(2)
      by (auto simp: place_def Let_def split: option.splits)
    with j show ?thesis by (rule_tac slide)
  qed
qed

lemma is_pow2_2: "is_pow2 2"
  by (simp add: is_pow2.simps[of 2])

lemma is_pow2_4: "is_pow2 4"
  by (simp add: is_pow2.simps[of 4] is_pow2_2)

lemma is_pow2_double: "is_pow2 v \<Longrightarrow> is_pow2 (v * 2)"
  by (subst is_pow2.simps) (auto simp: is_pow2.simps[of v] split: if_splits)

lemma is_pow2_iff: "is_pow2 v \<longleftrightarrow> (\<exists>k. 1 \<le> k \<and> v = 2 ^ k)"
proof
  show "is_pow2 v \<Longrightarrow> \<exists>k. 1 \<le> k \<and> v = 2 ^ k"
  proof (induction v rule: is_pow2.induct)
    case (1 v)
    show ?case
    proof (cases "v = 2")
      case True
      then show ?thesis by (intro exI[of _ 1]) simp
    next
      case False
      from "1.prems" have v: "2 \<le> v" "even v" "is_pow2 (v div 2)"
        using False by (auto simp: is_pow2.simps[of v] split: if_splits)
      with "1.IH" False obtain k where "1 \<le> k" "v div 2 = 2 ^ k" by auto
      with v(2) have "v = 2 ^ Suc k" by auto
      then show ?thesis by (intro exI[of _ "Suc k"]) simp
    qed
  qed
next
  assume "\<exists>k. 1 \<le> k \<and> v = 2 ^ k"
  then obtain k where "1 \<le> k" "v = 2 ^ k" by blast
  then show "is_pow2 v"
  proof (induction k arbitrary: v)
    case 0
    then show ?case by simp
  next
    case (Suc k)
    show ?case
    proof (cases "k = 0")
      case True
      with Suc.prems show ?thesis by (simp add: is_pow2.simps)
    next
      case False
      then have "is_pow2 (2 ^ k)" using Suc.IH by simp
      then have "is_pow2 (2 ^ k * 2)" by (rule is_pow2_double)
      with Suc.prems show ?thesis by (simp add: mult.commute)
    qed
  qed
qed

lemma step_rel_refl: "step_rel st st"
  by (simp add: step_rel_def)

lemma step_rel_trans:
  assumes ab: "step_rel a b" and bc: "step_rel b c"
  shows "step_rel a c"
proof -
  have "moved a \<longrightarrow> moved c"
    using ab bc unfolding step_rel_def by blast
  moreover have "\<not> moved c \<longrightarrow> c = a"
    using ab bc unfolding step_rel_def by blast
  moreover have "map idT (store c) = map idT (store a)"
    using ab bc unfolding step_rel_def by (elim conjE) (rule trans)
  ultimately show ?thesis unfolding step_rel_def by (intro conjI)
qed

lemma pos_upd_flags [simp]: "pos (t\<lparr>valueT := v, merged := m\<rparr>) = pos t"
  by (simp add: pos_def)

lemma pos_upd_cell [simp]: "pos (t\<lparr>row := fst c, col := snd c\<rparr>) = c"
  by (simp add: pos_def)

lemma nth_notin_drop:
  assumes "distinct xs" "i \<le> j" "i < length xs"
  shows "xs ! i \<notin> set (drop (Suc j) xs)"
proof
  assume "xs ! i \<in> set (drop (Suc j) xs)"
  then obtain k where "k < length xs - Suc j" "drop (Suc j) xs ! k = xs ! i"
    by (auto simp: in_set_conv_nth)
  then have "xs ! (Suc j + k) = xs ! i" "Suc j + k < length xs" by simp_all
  then show False using assms by (simp add: nth_eq_iff_index_eq)
qed

lemma place_step:
  assumes inv: "loop_inv st" and line: "line_ok coords"
    and lt: "lineTiles (grid st) (drop ti coords) = cur # rest"
  shows "\<exists>st' ti'. place coords cur st ti = Inr (st', ti') \<and> loop_inv st' \<and> step_rel st st' \<and>
           lineTiles (grid st') (drop ti' coords) = rest"
proof -
  from inv have ok: "grid_ok st" and cov: "covered st" and emp: "moved st \<longrightarrow> has_empty st"
    and pw: "\<forall>t \<in> set (store st). is_pow2 (valueT t)"
    by (simp_all add: loop_inv_def)
  from line have dist: "distinct coords" and inb: "\<forall>c \<in> set coords. in_board c"
    by (simp_all add: line_ok_def)
  from ok dist lt show ?thesis
  proof (cases rule: place_cases)
    case (merge j p)
    let ?st' = "st\<lparr>grid := (grid st)(coords ! j := None), moved := True,
                 store := (store st)[p := (store st ! p)\<lparr>valueT := valueT (store st ! p) * 2,
                                                        merged := True\<rparr>],
                 scoreGain := scoreGain st + valueT (store st ! p) * 2,
                 toRemove := insert (idT (store st ! cur)) (toRemove st)\<rparr>"
    from grid_okD[OF ok merge(4)] have cur: "cur < length (store st)"
        "pos (store st ! cur) = coords ! j" "in_board (coords ! j)" by simp_all
    from grid_okD[OF ok merge(7)] have p: "p < length (store st)" by simp
    have nth': "pos (store ?st' ! q) = pos (store st ! q)" "idT (store ?st' ! q) = idT (store st ! q)"
      if "q < length (store st)" for q
      using that p by (simp_all add: nth_list_update)
    have ok': "grid_ok ?st'"
      unfolding grid_ok_def
    proof (intro allI impI)
      fix c q assume "grid ?st' c = Some q"
      then have g: "grid st c = Some q" by (auto split: if_splits)
      from grid_okD[OF ok g] show "q < length (store ?st') \<and> pos (store ?st' ! q) = c \<and> in_board c"
        using nth' by simp
    qed
    have cov': "covered ?st'"
      unfolding covered_def
    proof (intro allI impI)
      fix q assume "q < length (store ?st')"
      then have q: "q < length (store st)" by simp
      show "grid ?st' (pos (store ?st' ! q)) = Some q \<or> idT (store ?st' ! q) \<in> toRemove ?st'"
      proof (cases "q = cur")
        case True
        then show ?thesis using nth'(2)[OF q] by simp
      next
        case False
        from cov q have "grid st (pos (store st ! q)) = Some q \<or> idT (store st ! q) \<in> toRemove st"
          by (simp add: covered_def)
        then show ?thesis
        proof
          assume g: "grid st (pos (store st ! q)) = Some q"
          then have "pos (store st ! q) \<noteq> coords ! j" using merge(4) False by auto
          with g show ?thesis using nth'(1)[OF q] by simp
        next
          assume "idT (store st ! q) \<in> toRemove st"
          then show ?thesis using nth'(2)[OF q] by simp
        qed
      qed
    qed
    have "has_empty ?st'"
      unfolding has_empty_def using cur(3) by (intro exI[of _ "coords ! j"]) simp
    then have emp': "moved ?st' \<longrightarrow> has_empty ?st'" by simp
    have pw': "\<forall>t \<in> set (store ?st'). is_pow2 (valueT t)"
    proof
      fix t assume "t \<in> set (store ?st')"
      then have "t \<in> set (store st) \<or> t = (store st ! p)\<lparr>valueT := valueT (store st ! p) * 2,
                                                        merged := True\<rparr>"
        using set_update_subset_insert[of "store st" p] by auto
      then show "is_pow2 (valueT t)"
        using pw nth_mem[OF p] by (auto intro!: is_pow2_double)
    qed
    have rel: "step_rel st ?st'"
      using p by (simp add: step_rel_def map_update list_update_same_conv)
    have "coords ! j \<notin> set (drop (Suc j) coords)"
      using dist merge(3) by (intro nth_notin_drop) simp_all
    then have "lineTiles (grid ?st') (drop (Suc j) coords) = rest"
      using merge(6) by (simp add: lineTiles_outside)
    moreover have "lineTiles (grid ?st') (drop ti coords) = lineTiles (grid ?st') (drop (Suc j) coords)"
      using merge(2,3,5) by (intro lineTiles_skip) (auto simp: less_Suc_eq)
    ultimately have lt': "lineTiles (grid ?st') (drop ti coords) = rest" by simp
    have "loop_inv ?st'"
      unfolding loop_inv_def by (intro conjI ok' cov' emp' pw')
    with merge(10) rel lt' show ?thesis by blast
  next
    case (slide j)
    let ?st' = "st\<lparr>moved := (moved st \<or> j \<noteq> ti),
                 grid := (grid st)(coords ! j := None, coords ! ti \<mapsto> cur),
                 store := (store st)[cur := (store st ! cur)\<lparr>row := fst (coords ! ti),
                                                            col := snd (coords ! ti)\<rparr>]\<rparr>"
    from grid_okD[OF ok slide(3)] have cur: "cur < length (store st)"
        "pos (store st ! cur) = coords ! j" "in_board (coords ! j)" by simp_all
    have ti: "ti < length coords" using slide(1,2) by simp
    have neq: "j \<noteq> ti \<Longrightarrow> coords ! j \<noteq> coords ! ti"
      using dist ti slide(2) by (simp add: nth_eq_iff_index_eq)
    have tgt: "grid st (coords ! ti) = Some q \<Longrightarrow> q = cur" for q
      using slide(1,3,4) by (cases "j = ti") auto
    have only: "grid st c = Some cur \<Longrightarrow> c = coords ! j" for c
      using grid_okD[OF ok, of c cur] cur(2) by simp
    have ok': "grid_ok ?st'"
      unfolding grid_ok_def
    proof (intro allI impI)
      fix c q assume g': "grid ?st' c = Some q"
      show "q < length (store ?st') \<and> pos (store ?st' ! q) = c \<and> in_board c"
      proof (cases "c = coords ! ti")
        case True
        with g' have "q = cur" by simp
        with True cur(1) inb ti show ?thesis by simp
      next
        case False
        with g' have g: "grid st c = Some q" "c \<noteq> coords ! j" by (auto split: if_splits)
        then have "q \<noteq> cur" using only[of c] by blast
        with grid_okD[OF ok g(1)] show ?thesis by simp
      qed
    qed
    have cov': "covered ?st'"
      unfolding covered_def
    proof (intro allI impI)
      fix q assume "q < length (store ?st')"
      then have q: "q < length (store st)" by simp
      show "grid ?st' (pos (store ?st' ! q)) = Some q \<or> idT (store ?st' ! q) \<in> toRemove ?st'"
      proof (cases "q = cur")
        case True
        then show ?thesis using cur(1) by simp
      next
        case False
        from cov q have "grid st (pos (store st ! q)) = Some q \<or> idT (store st ! q) \<in> toRemove st"
          by (simp add: covered_def)
        then show ?thesis
        proof
          assume g: "grid st (pos (store st ! q)) = Some q"
          then have "pos (store st ! q) \<noteq> coords ! j" using slide(3) False by auto
          moreover have "pos (store st ! q) \<noteq> coords ! ti" using g tgt False by auto
          ultimately show ?thesis using g False by simp
        next
          assume "idT (store st ! q) \<in> toRemove st"
          then show ?thesis using False by simp
        qed
      qed
    qed
    have same: "?st' = st" if "j = ti"
    proof -
      have "(grid st)(coords ! j := None, coords ! ti \<mapsto> cur) = grid st"
        using that slide(3) by auto
      moreover have "fst (coords ! ti) = row (store st ! cur)" "snd (coords ! ti) = col (store st ! cur)"
        using that cur(2) by (simp_all add: pos_def prod_eq_iff)
      then have "(store st)[cur := (store st ! cur)\<lparr>row := fst (coords ! ti),
                                                     col := snd (coords ! ti)\<rparr>] = store st"
        by simp
      ultimately show ?thesis using that by simp
    qed
    have emp': "moved ?st' \<longrightarrow> has_empty ?st'"
    proof (cases "j = ti")
      case True
      show ?thesis unfolding same[OF True] using emp .
    next
      case False
      then have "grid ?st' (coords ! j) = None" using neq by simp
      then show ?thesis unfolding has_empty_def using cur(3) by blast
    qed
    have pw': "\<forall>t \<in> set (store ?st'). is_pow2 (valueT t)"
    proof
      fix t assume "t \<in> set (store ?st')"
      then have "t \<in> set (store st) \<or> t = (store st ! cur)\<lparr>row := fst (coords ! ti),
                                                            col := snd (coords ! ti)\<rparr>"
        using set_update_subset_insert[of "store st" cur] by auto
      then show "is_pow2 (valueT t)"
        using pw nth_mem[OF cur(1)] by auto
    qed
    have "map idT (store ?st') = map idT (store st)"
      using cur(1) by (simp add: map_update list_update_same_conv)
    then have rel: "step_rel st ?st'"
    proof (cases "j = ti")
      case True
      show ?thesis unfolding same[OF True] by (rule step_rel_refl)
    next
      case False
      assume "map idT (store ?st') = map idT (store st)"
      with False show ?thesis by (simp add: step_rel_def)
    qed
    have n1: "coords ! j \<notin> set (drop (Suc j) coords)"
      using dist slide(2) by (intro nth_notin_drop) simp_all
    have n2: "coords ! ti \<notin> set (drop (Suc j) coords)"
      using dist slide(1) ti by (intro nth_notin_drop) simp_all
    have "lineTiles (grid ?st') (drop (Suc j) coords) = rest"
      using slide(5) n1 n2 by (simp add: lineTiles_outside)
    moreover have "lineTiles (grid ?st') (drop (Suc ti) coords) = lineTiles (grid ?st') (drop (Suc j) coords)"
    proof (rule lineTiles_skip)
      show "Suc ti \<le> Suc j" using slide(1) by simp
      show "Suc j \<le> length coords" using slide(2) by simp
      show "\<forall>i. Suc ti \<le> i \<and> i < Suc j \<longrightarrow> grid ?st' (coords ! i) = None"
      proof (intro allI impI)
        fix i assume i: "Suc ti \<le> i \<and> i < Suc j"
        then have "coords ! i \<noteq> coords ! ti" using dist ti slide(2) by (simp add: nth_eq_iff_index_eq)
        then show "grid ?st' (coords ! i) = None"
          using i slide(4) by (cases "i = j") auto
      qed
    qed
    ultimately have lt': "lineTiles (grid ?st') (drop (Suc ti) coords) = rest" by simp
    have "loop_inv ?st'"
      unfolding loop_inv_def by (intro conjI ok' cov' emp' pw')
    with slide(6) rel lt' show ?thesis by blast
  qed
qed

lemma place_all_inv:
  assumes "line_ok coords"
  shows "loop_inv st \<Longrightarrow> lineTiles (grid st) (drop ti coords) = lt \<Longrightarrow>
         \<exists>st'. place_all coords lt st ti = Inr st' \<and> loop_inv st' \<and> step_rel st st'"
proof (induction lt arbitrary: st ti)
  case Nil
  then show ?case by (auto intro: step_rel_refl)
next
  case (Cons cur rest)
  from place_step[OF Cons.prems(1) assms Cons.prems(2)]
  obtain st1 ti1 where s1: "place coords cur st ti = Inr (st1, ti1)" "loop_inv st1"
      "step_rel st st1" "lineTiles (grid st1) (drop ti1 coords) = rest"
    by blast
  from Cons.IH[OF s1(2) s1(4)]
  obtain st' where s2: "place_all coords rest st1 ti1 = Inr st'" "loop_inv st'" "step_rel st1 st'"
    by blast
  have "place_all coords (cur # rest) st ti = Inr st'"
    using s1(1) s2(1) by simp
  moreover have "step_rel st st'"
    using s1(3) s2(3) by (rule step_rel_trans)
  ultimately show ?case using s2(2) by blast
qed

lemma resolve_line_inv:
  assumes "line_ok coords" "loop_inv st"
  shows "\<exists>st'. resolve_line coords st = Inr st' \<and> loop_inv st' \<and> step_rel st st'"
proof (cases "lineTiles (grid st) coords = []")
  case True
  then have "resolve_line coords st = Inr st" by (simp add: resolve_line_def)
  with assms(2) show ?thesis using step_rel_refl by blast
next
  case False
  then have "resolve_line coords st = place_all coords (lineTiles (grid st) coords) st 0"
    by (simp add: resolve_line_def Let_def)
  moreover have "lineTiles (grid st) (drop 0 coords) = lineTiles (grid st) coords" by simp
  ultimately show ?thesis
    using place_all_inv[OF assms(1) assms(2), of 0 "lineTiles (grid st) coords"] by simp
qed

lemma resolve_lines_inv:
  "\<forall>coords \<in> set ls. line_ok coords \<Longrightarrow> loop_inv st \<Longrightarrow>
   \<exists>st'. resolve_lines ls st = Inr st' \<and> loop_inv st' \<and> step_rel st st'"
proof (induction ls arbitrary: st)
  case Nil
  then show ?case by (auto intro: step_rel_refl)
next
  case (Cons coords ls)
  from Cons.prems have l: "line_ok coords" by simp
  from resolve_line_inv[OF l Cons.prems(2)]
  obtain st1 where s1: "resolve_line coords st = Inr st1" "loop_inv st1" "step_rel st st1"
    by blast
  from Cons.prems(1) have "\<forall>coords \<in> set ls. line_ok coords" by simp
  from Cons.IH[OF this s1(2)]
  obtain st' where s2: "resolve_lines ls st1 = Inr st'" "loop_inv st'" "step_rel st1 st'"
    by blast
  have "resolve_lines (coords # ls) st = Inr st'"
    using s1(1) s2(1) by simp
  moreover have "step_rel st st'"
    using s1(3) s2(3) by (rule step_rel_trans)
  ultimately show ?case using s2(2) by blast
qed

lemma lines_ok: "\<forall>coords \<in> set (lines dir). line_ok coords"
  by (cases dir) (simp_all add: lines_def line_ok_def in_board_def SIZE_def upt_rec[of _ "numeral _"] upt_rec[of _ "Suc _"])

lemma grid_put_apply:
  "grid_put ts p g c = (if c = pos (ts ! p) then Some p else g c)"
  by (simp add: grid_put_def)

lemma fold_grid_Suc:
  "fold (grid_put ts) [0..<Suc n] Map.empty c =
     (if c = pos (ts ! n) then Some n else fold (grid_put ts) [0..<n] Map.empty c)"
proof -
  have "fold (grid_put ts) [0..<Suc n] Map.empty =
          grid_put ts n (fold (grid_put ts) [0..<n] Map.empty)"
    by simp
  then show ?thesis by (simp only: grid_put_apply)
qed

lemma fold_grid_Some:
  "n \<le> length ts \<Longrightarrow> fold (grid_put ts) [0..<n] Map.empty c = Some q \<Longrightarrow>
   q < n \<and> pos (ts ! q) = c"
proof (induction n arbitrary: q)
  case 0
  then show ?case by simp
next
  case (Suc n)
  from Suc.prems(2)
  have h: "(if c = pos (ts ! n) then Some n else fold (grid_put ts) [0..<n] Map.empty c) = Some q"
    by (simp only: fold_grid_Suc)
  show ?case
  proof (cases "c = pos (ts ! n)")
    case True
    with h have "Some n = Some q" by (simp only: if_True refl)
    with True show ?thesis by simp
  next
    case False
    with h have "fold (grid_put ts) [0..<n] Map.empty c = Some q" by (simp only: if_False)
    with Suc.IH[of q] Suc.prems(1) have "q < n \<and> pos (ts ! q) = c" by simp
    then show ?thesis by simp
  qed
qed

lemma fold_grid_nth:
  "distinct (map pos ts) \<Longrightarrow> n \<le> length ts \<Longrightarrow> q < n \<Longrightarrow>
   fold (grid_put ts) [0..<n] Map.empty (pos (ts ! q)) = Some q"
proof (induction n)
  case 0
  then show ?case by simp
next
  case (Suc n)
  show ?case
  proof (cases "q = n")
    case True
    then show ?thesis by (simp only: fold_grid_Suc) simp
  next
    case False
    with Suc.prems have q: "q < n" "n < length ts" by simp_all
    then have "map pos ts ! q \<noteq> map pos ts ! n"
      using Suc.prems(1) nth_eq_iff_index_eq[of "map pos ts" q n] by simp
    then have "pos (ts ! q) \<noteq> pos (ts ! n)" using q by simp
    moreover have "fold (grid_put ts) [0..<n] Map.empty (pos (ts ! q)) = Some q"
      using Suc.IH Suc.prems q by simp
    ultimately show ?thesis by (simp only: fold_grid_Suc) simp
  qed
qed

lemma build_grid_ok:
  assumes "board_ok ts"
  shows "\<exists>g. build_grid ts = Inr g \<and>
             (\<forall>c q. g c = Some q \<longrightarrow> q < length ts \<and> pos (ts ! q) = c) \<and>
             (\<forall>q < length ts. g (pos (ts ! q)) = Some q)"
proof -
  let ?g = "fold (grid_put ts) [0..<length ts] Map.empty"
  from assms have d: "distinct (map pos ts)" and b: "\<forall>t \<in> set ts. in_board (pos t)"
    by (simp_all add: board_ok_def)
  from b have "\<forall>t \<in> set ts. row t < SIZE" by (simp add: in_board_def pos_def)
  then have "build_grid ts = Inr ?g" by (auto simp: build_grid_def)
  moreover have "\<forall>c q. ?g c = Some q \<longrightarrow> q < length ts \<and> pos (ts ! q) = c"
    using fold_grid_Some[of "length ts" ts] by blast
  moreover have "\<forall>q < length ts. ?g (pos (ts ! q)) = Some q"
    using fold_grid_nth[OF d, of "length ts"] by simp
  ultimately show ?thesis by blast
qed

lemma pos_clear_flags [simp]: "pos (clear_flags t) = pos t"
  by (simp add: pos_def clear_flags_def)

lemma valueT_clear_flags [simp]: "valueT (clear_flags t) = valueT t"
  by (simp add: clear_flags_def)

lemma idT_clear_flags [simp]: "idT (clear_flags t) = idT t"
  by (simp add: clear_flags_def)

lemma board_ok_clear_flags: "board_ok ts \<Longrightarrow> board_ok (map clear_flags ts)"
  by (simp add: board_ok_def comp_def)

lemma init_inv:
  assumes ok: "board_ok ts" and g: "build_grid ts = Inr g"
  shows "loop_inv (init_state ts g)"
proof -
  from build_grid_ok[OF ok] g
  have g1: "\<forall>c q. g c = Some q \<longrightarrow> q < length ts \<and> pos (ts ! q) = c"
    and g2: "\<forall>q < length ts. g (pos (ts ! q)) = Some q"
    by simp_all
  from ok have inb: "\<forall>t \<in> set ts. in_board (pos t)" and pw: "\<forall>t \<in> set ts. is_pow2 (valueT t)"
    by (simp_all add: board_ok_def)
  have "grid_ok (init_state ts g)"
    unfolding grid_ok_def init_state_def
  proof (intro allI impI)
    fix c q assume "grid \<lparr>store = ts, grid = g, moved = False, scoreGain = 0, toRemove = {}\<rparr> c = Some q"
    then have "g c = Some q" by simp
    with g1 have q: "q < length ts" "pos (ts ! q) = c" by blast+
    then have "in_board c" using inb nth_mem[OF q(1)] by blast
    with q show "q < length (store \<lparr>store = ts, grid = g, moved = False, scoreGain = 0, toRemove = {}\<rparr>) \<and>
        pos (store \<lparr>store = ts, grid = g, moved = False, scoreGain = 0, toRemove = {}\<rparr> ! q) = c \<and> in_board c"
      by simp
  qed
  moreover have "covered (init_state ts g)"
    using g2 by (simp add: covered_def init_state_def)
  moreover have "moved (init_state ts g) \<longrightarrow> has_empty (init_state ts g)"
    by (simp add: init_state_def)
  moreover have "\<forall>t \<in> set (store (init_state ts g)). is_pow2 (valueT t)"
    using pw by (simp add: init_state_def)
  ultimately show ?thesis unfolding loop_inv_def by (intro conjI)
qed

lemma resolve_eq:
  "build_grid (map clear_flags ts) = Inr g \<Longrightarrow>
   resolve dir ts = resolve_lines (lines dir) (init_state (map clear_flags ts) g)"
  by (simp add: resolve_def init_state_def)

lemma resolve_inv:
  assumes ok: "board_ok ts"
  shows "\<exists>st. resolve dir ts = Inr st \<and> loop_inv st \<and> map idT (store st) = map idT ts \<and>
           (\<not> moved st \<longrightarrow> store st = map clear_flags ts \<and> toRemove st = {} \<and> scoreGain st = 0)"
proof -
  let ?ts = "map clear_flags ts"
  from ok have ok': "board_ok ?ts" by (rule board_ok_clear_flags)
  from build_grid_ok[OF ok'] obtain g where g: "build_grid ?ts = Inr g" by blast
  let ?st0 = "init_state ?ts g"
  have inv0: "loop_inv ?st0" using ok' g by (rule init_inv)
  from resolve_lines_inv[OF lines_ok inv0, of dir]
  obtain st where st: "resolve_lines (lines dir) ?st0 = Inr st" "loop_inv st" "step_rel ?st0 st"
    by blast
  have r: "resolve dir ts = Inr st" using resolve_eq[OF g] st(1) by simp
  have ids: "map idT (store st) = map idT ts"
    using st(3) by (simp add: step_rel_def init_state_def comp_def)
  have same: "\<not> moved st \<longrightarrow> st = ?st0"
    using st(3) unfolding step_rel_def by blast
  have "\<not> moved st \<longrightarrow> store st = ?ts \<and> toRemove st = {} \<and> scoreGain st = 0"
  proof
    assume "\<not> moved st"
    with same have "st = ?st0" by blast
    then show "store st = ?ts \<and> toRemove st = {} \<and> scoreGain st = 0"
      by (simp add: init_state_def)
  qed
  with r st(2) ids show ?thesis by blast
qed

lemma set_emptyCells: "set (emptyCells ts) = {c. in_board c \<and> c \<notin> pos ` set ts}"
  by (auto simp: emptyCells_def in_board_def)

lemma distinct_map_filter_nth:
  "(\<And>i j. i < length xs \<Longrightarrow> j < length xs \<Longrightarrow> i \<noteq> j \<Longrightarrow> P (xs ! i) \<Longrightarrow> P (xs ! j) \<Longrightarrow>
      f (xs ! i) \<noteq> f (xs ! j)) \<Longrightarrow>
   distinct (map f (filter P xs))"
proof (induction xs)
  case Nil
  then show ?case by simp
next
  case (Cons x xs)
  have tl: "distinct (map f (filter P xs))"
  proof (rule Cons.IH)
    fix i j assume "i < length xs" "j < length xs" "i \<noteq> j" "P (xs ! i)" "P (xs ! j)"
    then show "f (xs ! i) \<noteq> f (xs ! j)"
      using Cons.prems[of "Suc i" "Suc j"] by simp
  qed
  have hd: "f x \<noteq> f y" if "P x" "y \<in> set xs" "P y" for y
  proof -
    from that(2) obtain k where "k < length xs" "xs ! k = y" by (auto simp: in_set_conv_nth)
    then show ?thesis using Cons.prems[of 0 "Suc k"] that by auto
  qed
  show ?case using tl hd by auto
qed

lemma filtered_nth:
  assumes inv: "loop_inv st" and t: "t \<in> set (filtered st)"
  shows "\<exists>p < length (store st). t = store st ! p \<and> grid st (pos t) = Some p"
proof -
  from t have "t \<in> set (store st)" "idT t \<notin> toRemove st" by (simp_all add: filtered_def)
  then obtain p where p: "p < length (store st)" "store st ! p = t"
    by (auto simp: in_set_conv_nth)
  from inv have "covered st" by (simp add: loop_inv_def)
  with p \<open>idT t \<notin> toRemove st\<close> have "grid st (pos t) = Some p"
    unfolding covered_def by blast
  with p show ?thesis by blast
qed

lemma filtered_board_ok:
  assumes inv: "loop_inv st"
  shows "board_ok (filtered st)"
proof -
  from inv have cov: "covered st" and ok: "grid_ok st"
    and pw: "\<forall>t \<in> set (store st). is_pow2 (valueT t)"
    by (simp_all add: loop_inv_def)
  have "distinct (map pos (filter (\<lambda>t. idT t \<notin> toRemove st) (store st)))"
  proof (rule distinct_map_filter_nth)
    fix i j assume ij: "i < length (store st)" "j < length (store st)" "i \<noteq> j"
      "idT (store st ! i) \<notin> toRemove st" "idT (store st ! j) \<notin> toRemove st"
    with cov have "grid st (pos (store st ! i)) = Some i" "grid st (pos (store st ! j)) = Some j"
      unfolding covered_def by blast+
    with ij(3) show "pos (store st ! i) \<noteq> pos (store st ! j)" by auto
  qed
  then have "distinct (map pos (filtered st))" by (simp add: filtered_def)
  moreover have "\<forall>t \<in> set (filtered st). in_board (pos t)"
    using filtered_nth[OF inv] grid_okD[OF ok] by blast
  moreover have "\<forall>t \<in> set (filtered st). is_pow2 (valueT t)"
    using pw by (simp add: filtered_def)
  ultimately show ?thesis by (simp add: board_ok_def)
qed

lemma filtered_has_empty:
  assumes inv: "loop_inv st" and m: "moved st"
  shows "emptyCells (filtered st) \<noteq> []"
proof -
  from inv m have "has_empty st" by (simp add: loop_inv_def)
  then obtain c where c: "in_board c" "grid st c = None" by (auto simp: has_empty_def)
  have "c \<notin> pos ` set (filtered st)"
  proof
    assume "c \<in> pos ` set (filtered st)"
    then obtain t where "t \<in> set (filtered st)" "pos t = c" by auto
    with filtered_nth[OF inv] c(2) show False by fastforce
  qed
  with c(1) have "c \<in> set (emptyCells (filtered st))" by (simp add: set_emptyCells)
  then show ?thesis by auto
qed

lemma randomSpawn_ok:
  assumes x: "0 \<le> x" "x < of_nat (length (emptyCells ts))"
  shows "nat \<lfloor>x\<rfloor> < length (emptyCells ts) \<and>
         randomSpawn ts i x u2 =
           Inr (ts @ [spawn_tile i (emptyCells ts ! nat \<lfloor>x\<rfloor>) (if u2 < 1 / 10 then 4 else 2)],
                i + 1)"
proof -
  let ?n = "length (emptyCells ts)"
  let ?k = "\<lfloor>x\<rfloor>"
  have k0: "0 \<le> ?k" using x(1) by simp
  have "x < of_int (int ?n)" using x(2) by simp
  then have k1: "?k < int ?n" by (simp only: floor_less_iff)
  from k0 k1 have lt: "nat ?k < ?n" using nat_less_iff[of ?k ?n] by blast
  then have n: "0 < ?n" by (cases "emptyCells ts") simp_all
  have "randomSpawn ts i x u2 =
          Inr (ts @ [spawn_tile i (emptyCells ts ! nat ?k) (if u2 < 1 / 10 then 4 else 2)], i + 1)"
    using n k0 k1 by (simp add: randomSpawn_def Let_def spawn_tile_def)
  with lt show ?thesis by blast
qed

lemma randomSpawn_full: "emptyCells ts = [] \<Longrightarrow> randomSpawn ts i u1 u2 = Inr (ts, i)"
  by (simp add: randomSpawn_def)

lemma board_ok_spawn:
  assumes ok: "board_ok ts" and c: "c \<in> set (emptyCells ts)" and v: "v = 2 \<or> v = 4"
  shows "board_ok (ts @ [spawn_tile i c v])"
proof -
  have p: "pos (spawn_tile i c v) = c" by (simp add: pos_def spawn_tile_def)
  from c have "in_board c" "c \<notin> pos ` set ts" by (simp_all add: set_emptyCells)
  moreover have "is_pow2 (valueT (spawn_tile i c v))"
    using v is_pow2_2 is_pow2_4 by (auto simp: spawn_tile_def)
  ultimately show ?thesis using ok p by (simp add: board_ok_def)
qed

lemma randomSpawn_cases:
  assumes "randomSpawn ts i u1 u2 = Inr (ts', i')"
  shows "(ts' = ts \<and> i' = i \<and> emptyCells ts = []) \<or>
         (\<exists>c \<in> set (emptyCells ts). \<exists>v. (v = 2 \<or> v = 4) \<and> v = (if u2 < 1 / 10 then 4 else 2) \<and>
            ts' = ts @ [spawn_tile i c v] \<and> i' = i + 1)"
proof (cases "emptyCells ts = []")
  case True
  with assms show ?thesis by (simp add: randomSpawn_def)
next
  case False
  let ?n = "length (emptyCells ts)"
  let ?k = "\<lfloor>u1\<rfloor>"
  from assms False have k: "0 \<le> ?k" "?k < int ?n"
    by (auto simp: randomSpawn_def Let_def split: if_splits)
  then have "nat ?k < ?n" using nat_less_iff[of ?k ?n] by blast
  then have mem: "emptyCells ts ! nat ?k \<in> set (emptyCells ts)" by simp
  from assms False k
  have "ts' = ts @ [spawn_tile i (emptyCells ts ! nat ?k) (if u2 < 1 / 10 then 4 else 2)] \<and> i' = i + 1"
    by (auto simp: randomSpawn_def Let_def spawn_tile_def split: if_splits)
  with mem show ?thesis by (intro disjI2 bexI[of _ "emptyCells ts ! nat ?k"]) auto
qed

lemma move_Inr:
  assumes "move dir u1 u2 s i = Inr (s', i')"
  obtains st can where "resolve dir (tiles s) = Inr st"
    "(if moved st then randomSpawn (filtered st) i u1 u2 else Inr (filtered st, i)) = Inr (tiles s', i')"
    "score s' = score s + scoreGain st" "best s' = max (best s) (score s')"
    "won s' = (won s \<or> (\<exists>t \<in> set (filtered st). 2048 \<le> valueT t))"
    "(if won s' then Inr True else canAnyMove (tiles s')) = Inr can"
    "over s' = (\<not> won s' \<and> \<not> can)"
proof -
  from assms obtain st where st: "resolve dir (tiles s) = Inr st"
    by (auto simp: move_def split: sum.splits)
  let ?won = "won s \<or> list_ex (\<lambda>t. 2048 \<le> valueT t) (filtered st)"
  from assms st obtain nt j where sp:
    "(if moved st then randomSpawn (filtered st) i u1 u2 else Inr (filtered st, i)) = Inr (nt, j)"
    by (auto simp: move_def Let_def split: sum.splits)
  from assms st sp obtain can where can: "(if ?won then Inr True else canAnyMove nt) = Inr can"
    by (auto simp: move_def Let_def split: sum.splits)
  from assms st sp can have eq: "s' = \<lparr>tiles = nt, score = score s + scoreGain st,
      best = max (best s) (score s + scoreGain st), won = ?won, over = (\<not> ?won \<and> \<not> can)\<rparr>" "i' = j"
    by (simp_all add: move_def Let_def)
  show thesis
  proof (rule that[of st can])
    show "resolve dir (tiles s) = Inr st" by (rule st)
    show "(if moved st then randomSpawn (filtered st) i u1 u2 else Inr (filtered st, i)) = Inr (tiles s', i')"
      using sp eq by simp
    show "score s' = score s + scoreGain st" using eq by simp
    show "best s' = max (best s) (score s')" using eq by simp
    show "won s' = (won s \<or> (\<exists>t \<in> set (filtered st). 2048 \<le> valueT t))"
      using eq by (simp add: list_ex_iff)
    show "(if won s' then Inr True else canAnyMove (tiles s')) = Inr can"
      using can eq by (auto split: if_splits)
    show "over s' = (\<not> won s' \<and> \<not> can)" using eq by auto
  qed
qed

lemma spawn_small: "v = 2 \<or> v = 4 \<Longrightarrow> \<not> 2048 \<le> valueT (spawn_tile i c v)"
  by (auto simp: spawn_tile_def)

lemma move_won:
  assumes "move dir u1 u2 s i = Inr (s', i')"
  shows "won s' = (won s \<or> (\<exists>t \<in> set (tiles s'). 2048 \<le> valueT t))"
proof -
  from assms obtain st can where st: "resolve dir (tiles s) = Inr st"
    "(if moved st then randomSpawn (filtered st) i u1 u2 else Inr (filtered st, i)) = Inr (tiles s', i')"
    "won s' = (won s \<or> (\<exists>t \<in> set (filtered st). 2048 \<le> valueT t))"
    by (rule move_Inr)
  have "(\<exists>t \<in> set (tiles s'). 2048 \<le> valueT t) = (\<exists>t \<in> set (filtered st). 2048 \<le> valueT t)"
  proof (cases "moved st")
    case False
    with st(2) show ?thesis by simp
  next
    case True
    with st(2) have "randomSpawn (filtered st) i u1 u2 = Inr (tiles s', i')" by simp
    from randomSpawn_cases[OF this] show ?thesis
      using spawn_small by auto
  qed
  with st(3) show ?thesis by simp
qed

lemma newGame_Inr:
  assumes "newGame u1 u2 u3 u4 s = Inr (s', i')"
  shows "score s' = 0 \<and> \<not> won s' \<and> \<not> over s' \<and> best s' = best s"
  using assms by (auto simp: newGame_def split: sum.splits prod.splits)

lemma run_Cons:
  assumes "run (a # ops) w = Inr tr"
  obtains w' tr' where "apply_op a w = Inr w'" "run ops w' = Inr tr'" "tr = w' # tr'"
  using assms by (auto split: sum.splits)

lemma apply_op_best:
  assumes "apply_op a w = Inr w'"
  shows "best (fst w') = (if is_move a then max (best (fst w)) (score (fst w')) else best (fst w))"
proof (cases a)
  case (Move dir u1 u2)
  with assms have "move dir u1 u2 (fst w) (snd w) = Inr (fst w', snd w')"
    by (cases w) simp
  then have "best (fst w') = max (best (fst w)) (score (fst w'))"
    by (rule move_Inr)
  with Move show ?thesis by simp
next
  case (NewGame u1 u2 u3 u4)
  with assms have "newGame u1 u2 u3 u4 (fst w) = Inr (fst w', snd w')"
    by (cases w) simp
  from newGame_Inr[OF this] NewGame show ?thesis by simp
qed

lemma final_Cons: "final w (w' # tr) = final w' tr"
  by (simp add: final_def)

lemma move_scores_Cons:
  "move_scores (a # ops) (w' # tr) =
     (if is_move a then score (fst w') # move_scores ops tr else move_scores ops tr)"
  by (simp add: move_scores_def)

lemma run_best:
  "run ops w = Inr tr \<Longrightarrow>
   best (final w tr) = Max (insert (best (fst w)) (set (move_scores ops tr)))"
proof (induction ops arbitrary: w tr)
  case Nil
  then show ?case by (simp add: final_def move_scores_def)
next
  case (Cons a ops)
  from Cons.prems obtain w' tr' where s: "apply_op a w = Inr w'" "run ops w' = Inr tr'"
      "tr = w' # tr'"
    by (rule run_Cons)
  let ?S = "set (move_scores ops tr')"
  have fin: "finite ?S" by simp
  from Cons.IH[OF s(2)] have ih: "best (final w' tr') = Max (insert (best (fst w')) ?S)" .
  show ?case
  proof (cases "is_move a")
    case True
    with apply_op_best[OF s(1)] have b: "best (fst w') = max (best (fst w)) (score (fst w'))"
      by simp
    have "Max (insert (max (best (fst w)) (score (fst w'))) ?S) =
          Max (insert (best (fst w)) (insert (score (fst w')) ?S))"
      using fin by (cases "?S = {}") (simp_all add: max.assoc)
    with ih b True s(3) show ?thesis
      by (simp add: final_Cons move_scores_Cons)
  next
    case False
    with apply_op_best[OF s(1)] have "best (fst w') = best (fst w)" by simp
    with ih False s(3) show ?thesis
      by (simp add: final_Cons move_scores_Cons)
  qed
qed

lemma run_nth:
  "run ops w = Inr tr \<Longrightarrow>
   length tr = length ops \<and> (\<forall>n < length ops. apply_op (ops ! n) ((w # tr) ! n) = Inr (tr ! n))"
proof (induction ops arbitrary: w tr)
  case Nil
  then show ?case by simp
next
  case (Cons a ops)
  from Cons.prems obtain w' tr' where s: "apply_op a w = Inr w'" "run ops w' = Inr tr'"
      "tr = w' # tr'"
    by (rule run_Cons)
  from Cons.IH[OF s(2)] have ih: "length tr' = length ops"
      "\<forall>n < length ops. apply_op (ops ! n) ((w' # tr') ! n) = Inr (tr' ! n)"
    by simp_all
  have "apply_op ((a # ops) ! n) ((w # tr) ! n) = Inr (tr ! n)" if "n < length (a # ops)" for n
  proof (cases n)
    case 0
    with s show ?thesis by simp
  next
    case (Suc m)
    with that ih(2) s(3) show ?thesis by simp
  qed
  with ih(1) s(3) show ?case by simp
qed

lemma apply_move_won:
  assumes "apply_op a w = Inr w'" "is_move a"
  shows "won (fst w') = (won (fst w) \<or> (\<exists>t \<in> set (tiles (fst w')). 2048 \<le> valueT t))"
proof (cases a)
  case (Move dir u1 u2)
  with assms have "move dir u1 u2 (fst w) (snd w) = Inr (fst w', snd w')"
    by (cases w) simp
  then show ?thesis by (rule move_won)
next
  case (NewGame u1 u2 u3 u4)
  with assms show ?thesis by simp
qed

lemma run_won_sticky:
  assumes r: "run ops w = Inr tr" and kj: "k \<le> j" "j < length tr"
    and mv: "\<forall>n. k \<le> n \<and> n \<le> j \<longrightarrow> is_move (ops ! n)"
    and big: "\<exists>t \<in> set (tiles (fst (tr ! k))). 2048 \<le> valueT t"
  shows "won (fst (tr ! j))"
proof -
  from run_nth[OF r] have len: "length tr = length ops"
    and st: "\<And>n. n < length ops \<Longrightarrow> apply_op (ops ! n) ((w # tr) ! n) = Inr (tr ! n)"
    by simp_all
  from kj(1) kj(2) mv show ?thesis
  proof (induction j rule: dec_induct)
    case base
    then have "apply_op (ops ! k) ((w # tr) ! k) = Inr (tr ! k)" "is_move (ops ! k)"
      using st[of k] len by simp_all
    from apply_move_won[OF this] big show ?case by blast
  next
    case (step n)
    then have w: "won (fst (tr ! n))" by simp
    from step have "apply_op (ops ! Suc n) (tr ! n) = Inr (tr ! Suc n)" "is_move (ops ! Suc n)"
      using st[of "Suc n"] len by simp_all
    from apply_move_won[OF this] w show ?case by blast
  qed
qed

section \<open>The best score and the win flag along a game\<close>

text \<open>
  C7, as the code has it. Along every sequence of moves and resets that runs through,
  \<open>best\<close> at the end is the greatest of its value at the start and the scores reached
  by the moves of the sequence, so it is never below its value at the start, whether
  or not a \<^verbatim>\<open>newGame\<close> lies in between. A move sets \<open>best\<close> to the maximum of its
  previous value and the new score; \<^verbatim>\<open>newGame\<close> sets the score to 0 and \<open>won\<close> and
  \<open>over\<close> to false and keeps \<open>best\<close>.
\<close>

theorem best_is_high_water_mark:
  "(run ops (s, idSeq) = Inr tr \<longrightarrow>
      best (final (s, idSeq) tr) = Max (insert (best s) (set (move_scores ops tr))) \<and>
      best s \<le> best (final (s, idSeq) tr)) \<and>
   (move dir u1 u2 s idSeq = Inr (s1, i1) \<longrightarrow> best s1 = max (best s) (score s1)) \<and>
   (newGame v1 v2 v3 v4 s = Inr (s2, i2) \<longrightarrow>
      score s2 = 0 \<and> \<not> won s2 \<and> \<not> over s2 \<and> best s2 = best s)"
proof (intro conjI impI)
  assume r: "run ops (s, idSeq) = Inr tr"
  from run_best[OF r]
  show b: "best (final (s, idSeq) tr) = Max (insert (best s) (set (move_scores ops tr)))"
    by simp
  show "best s \<le> best (final (s, idSeq) tr)"
    unfolding b by (rule Max_ge) simp_all
next
  assume "move dir u1 u2 s idSeq = Inr (s1, i1)"
  then show "best s1 = max (best s) (score s1)" by (rule move_Inr)
next
  assume n: "newGame v1 v2 v3 v4 s = Inr (s2, i2)"
  from newGame_Inr[OF n]
  show "score s2 = 0" "\<not> won s2" "\<not> over s2" "best s2 = best s" by simp_all
qed

lemma c7_run: "run c7_ops (c7_state\<lparr>best := 2\<rparr>, 3) = Inr c7_trace"
  unfolding c7_ops_def c7_state_def c7_trace_def by code_simp

lemma c7_move: "move Right 0 (1 / 2) c7_state 3 = Inr (c7_after, 4)"
  unfolding c7_state_def c7_after_def by code_simp

lemma c7_newGame:
  "newGame 0 0 (15 / 2) (1 / 2) c7_state =
     Inr (\<lparr>tiles = [\<lparr>idT = 1, row = 0, col = 0, valueT = 4, spawned = True, merged = False\<rparr>,
                     \<lparr>idT = 2, row = 2, col = 0, valueT = 2, spawned = True, merged = False\<rparr>],
            score = 0, best = 10, won = False, over = False\<rparr>, 3)"
  unfolding c7_state_def by code_simp

theorem best_is_high_water_mark_witness:
  "run c7_ops (c7_state\<lparr>best := 2\<rparr>, 3) = Inr c7_trace \<and>
   move Right 0 (1 / 2) c7_state 3 = Inr (c7_after, 4) \<and>
   newGame 0 0 (15 / 2) (1 / 2) c7_state =
     Inr (\<lparr>tiles = [\<lparr>idT = 1, row = 0, col = 0, valueT = 4, spawned = True, merged = False\<rparr>,
                     \<lparr>idT = 2, row = 2, col = 0, valueT = 2, spawned = True, merged = False\<rparr>],
            score = 0, best = 10, won = False, over = False\<rparr>, 3) \<and>
   best (final (c7_state\<lparr>best := 2\<rparr>, 3) c7_trace) = 4 \<and>
   move_scores c7_ops c7_trace = [0, 4, 0] \<and>
   best c7_after = max (best c7_state) (score c7_after)"
proof -
  have "best (final (c7_state\<lparr>best := 2\<rparr>, 3) c7_trace) =
          Max (insert (best (c7_state\<lparr>best := 2\<rparr>)) (set (move_scores c7_ops c7_trace)))"
    using best_is_high_water_mark[of c7_ops "c7_state\<lparr>best := 2\<rparr>" 3 c7_trace] c7_run by blast
  moreover have ms: "move_scores c7_ops c7_trace = [0, 4, 0]"
    by (simp add: move_scores_def c7_ops_def c7_trace_def)
  ultimately have "best (final (c7_state\<lparr>best := 2\<rparr>, 3) c7_trace) = 4"
    by (simp add: c7_state_def)
  moreover have "best c7_after = max (best c7_state) (score c7_after)"
    using best_is_high_water_mark[of _ c7_state 3 _ Right 0 "1 / 2" c7_after 4] c7_move by blast
  ultimately show ?thesis using c7_run c7_move c7_newGame ms by blast
qed

text \<open>
  C7 as stated fails where \<open>best\<close> starts above every score of the sequence: one move
  from a fresh board in a session whose best score is 10 reaches the score 0 and
  leaves \<open>best\<close> at 10.
\<close>

theorem best_not_max_score_counterexample:
  "run [Move Right 0 (1 / 2)] (c7_state, 3) = Inr [(c7_after, 4)] \<and>
   score c7_state = 0 \<and>
   Max (set (move_scores [Move Right 0 (1 / 2)] [(c7_after, 4)])) = 0 \<and>
   best (final (c7_state, 3) [(c7_after, 4)]) = 10"
proof -
  have "run [Move Right 0 (1 / 2)] (c7_state, 3) = Inr [(c7_after, 4)]"
    using c7_move by simp
  then show ?thesis
    by (simp add: move_scores_def final_def c7_after_def c7_state_def)
qed

text \<open>
  C4. \<open>tr ! n\<close> is the state after the \<open>n\<close>-th operation of a run. If some tile of
  the state after operation \<open>k\<close> has a value of at least 2048, and the operations from
  \<open>k\<close> to \<open>j\<close> are moves (no \<^verbatim>\<open>newGame\<close> in between: one game), then \<open>won\<close> holds
  after operation \<open>j\<close>, whatever the tiles are by then. Each move sets \<open>won\<close> to its
  previous value or-ed with the presence of such a tile.
\<close>

theorem won_is_sticky:
  "(run ops (s, idSeq) = Inr tr \<longrightarrow> k \<le> j \<longrightarrow> j < length tr \<longrightarrow>
      (\<forall>n \<in> {k..j}. is_move (ops ! n)) \<longrightarrow>
      (\<exists>t \<in> set (tiles (fst (tr ! k))). 2048 \<le> valueT t) \<longrightarrow>
      won (fst (tr ! j))) \<and>
   (move dir u1 u2 s idSeq = Inr (s1, i1) \<longrightarrow>
      won s1 = (won s \<or> (\<exists>t \<in> set (tiles s1). 2048 \<le> valueT t)))"
proof (intro conjI impI)
  assume "run ops (s, idSeq) = Inr tr" "k \<le> j" "j < length tr"
    "\<forall>n \<in> {k..j}. is_move (ops ! n)" "\<exists>t \<in> set (tiles (fst (tr ! k))). 2048 \<le> valueT t"
  then show "won (fst (tr ! j))"
    by (intro run_won_sticky[of ops "(s, idSeq)" tr k j]) simp_all
next
  assume "move dir u1 u2 s idSeq = Inr (s1, i1)"
  then show "won s1 = (won s \<or> (\<exists>t \<in> set (tiles s1). 2048 \<le> valueT t))"
    by (rule move_won)
qed

lemma c4_run: "run c4_ops (c4_state, 13) = Inr c4_trace"
  unfolding c4_ops_def c4_state_def c4_trace_def by code_simp

theorem won_is_sticky_witness:
  "run c4_ops (c4_state, 13) = Inr c4_trace \<and> (0::nat) \<le> 2 \<and> 2 < length c4_trace \<and>
   is_move (c4_ops ! 0) \<and> is_move (c4_ops ! 1) \<and> is_move (c4_ops ! 2) \<and>
   (\<exists>t \<in> set (tiles (fst (c4_trace ! 0))). 2048 \<le> valueT t) \<and>
   \<not> (\<exists>t \<in> set (tiles (fst (c4_trace ! 2))). valueT t = 2048) \<and>
   won (fst (c4_trace ! 2)) \<and>
   \<not> won c4_state \<and> won (fst (c4_trace ! 0))"
proof -
  have len: "2 < length c4_trace" by (simp add: c4_trace_def)
  have mv: "\<forall>n \<in> {0..2}. is_move (c4_ops ! n)"
  proof
    fix n :: nat assume "n \<in> {0..2}"
    then have "n = 0 \<or> n = 1 \<or> n = 2" by auto
    then show "is_move (c4_ops ! n)" by (auto simp: c4_ops_def)
  qed
  have big: "\<exists>t \<in> set (tiles (fst (c4_trace ! 0))). 2048 \<le> valueT t"
    by (simp add: c4_trace_def)
  have gone: "\<not> (\<exists>t \<in> set (tiles (fst (c4_trace ! 2))). valueT t = 2048)"
    by (simp add: c4_trace_def)
  have "won (fst (c4_trace ! 2))"
    using won_is_sticky[of c4_ops c4_state 13 c4_trace 0 2] c4_run len mv big by blast
  moreover have "won (fst (c4_trace ! 0))"
    using won_is_sticky[of "[Move Left 0 (1 / 2)]" c4_state 13 _ 0 0 Left 0 "1 / 2"
        "fst (c4_trace ! 0)" 14] c4_run big
    by (simp add: c4_ops_def c4_trace_def split: sum.splits)
  moreover have "\<not> won c4_state" by (simp add: c4_state_def)
  moreover have "is_move (c4_ops ! 0)" "is_move (c4_ops ! 1)" "is_move (c4_ops ! 2)"
    by (simp_all add: c4_ops_def)
  ultimately show ?thesis using c4_run len big gone by simp
qed

lemma cell_value_iff:
  assumes ok: "board_ok ts" and g: "build_grid ts = Inr g"
  shows "cell_value ts g c = Some v \<longleftrightarrow> (\<exists>t \<in> set ts. pos t = c \<and> valueT t = v)"
proof
  from build_grid_ok[OF ok] g
  have g1: "\<forall>c q. g c = Some q \<longrightarrow> q < length ts \<and> pos (ts ! q) = c"
    and g2: "\<forall>q < length ts. g (pos (ts ! q)) = Some q"
    by simp_all
  {
    assume "cell_value ts g c = Some v"
    then obtain q where q: "g c = Some q" "valueT (ts ! q) = v"
      by (auto simp: cell_value_def)
    with g1 have "q < length ts" "pos (ts ! q) = c" by blast+
    with q(2) show "\<exists>t \<in> set ts. pos t = c \<and> valueT t = v"
      using nth_mem by blast
  }
  {
    assume "\<exists>t \<in> set ts. pos t = c \<and> valueT t = v"
    then obtain q where q: "q < length ts" "pos (ts ! q) = c" "valueT (ts ! q) = v"
      by (auto simp: in_set_conv_nth)
    with g2 have "g c = Some q" by blast
    with q(3) show "cell_value ts g c = Some v" by (simp add: cell_value_def)
  }
qed

lemma canAnyMove_iff:
  assumes ok: "board_ok ts"
  shows "canAnyMove ts = Inr (emptyCells ts \<noteq> [] \<or> has_equal_neighbours ts)"
proof (cases "emptyCells ts = []")
  case False
  then show ?thesis by (simp add: canAnyMove_def)
next
  case True
  from build_grid_ok[OF ok] obtain g where g: "build_grid ts = Inr g" by blast
  note cv = cell_value_iff[OF ok g]
  from ok have inb: "\<And>t. t \<in> set ts \<Longrightarrow> row t < SIZE \<and> col t < SIZE"
    by (simp add: board_ok_def in_board_def pos_def)
  let ?scan = "list_ex (\<lambda>r. list_ex (\<lambda>c.
                      case cell_value ts g (r, c) of
                        None \<Rightarrow> False
                      | Some v \<Rightarrow>
                          (r + 1 < SIZE \<and> cell_value ts g (r + 1, c) = Some v) \<or>
                          (c + 1 < SIZE \<and> cell_value ts g (r, c + 1) = Some v))
                    [0..<SIZE]) [0..<SIZE]"
  have "?scan = has_equal_neighbours ts"
  proof
    assume ?scan
    then obtain r c v where rc: "r < SIZE" "c < SIZE" "cell_value ts g (r, c) = Some v"
        "(r + 1 < SIZE \<and> cell_value ts g (r + 1, c) = Some v) \<or>
         (c + 1 < SIZE \<and> cell_value ts g (r, c + 1) = Some v)"
      by (auto simp: list_ex_iff split: option.splits)
    from rc(3) obtain t1 where t1: "t1 \<in> set ts" "pos t1 = (r, c)" "valueT t1 = v"
      using cv by blast
    from rc(4) obtain t2 where t2: "t2 \<in> set ts" "pos t2 = (r + 1, c) \<or> pos t2 = (r, c + 1)"
        "valueT t2 = v"
      using cv by blast
    from t1(2) t2(2) have adj: "adjacent (pos t1) (pos t2)" by (auto simp: adjacent_def)
    from t1(3) t2(3) have eq: "valueT t1 = valueT t2" by simp
    show "has_equal_neighbours ts"
      unfolding has_equal_neighbours_def using t1(1) t2(1) adj eq by blast
  next
    assume "has_equal_neighbours ts"
    then obtain t1 t2 where t: "t1 \<in> set ts" "t2 \<in> set ts" "adjacent (pos t1) (pos t2)"
        "valueT t1 = valueT t2"
      unfolding has_equal_neighbours_def by blast
    have step: ?scan if a: "a \<in> set ts" "b \<in> set ts" "valueT a = valueT b"
      "pos b = (row a + 1, col a) \<or> pos b = (row a, col a + 1)" for a b
    proof -
      have va: "cell_value ts g (row a, col a) = Some (valueT a)"
        using cv a(1) by (auto simp: pos_def)
      have vb: "cell_value ts g (pos b) = Some (valueT a)"
        using cv a(2,3) by auto
      from inb[OF a(1)] inb[OF a(2)] a(4)
      have "(row a + 1 < SIZE \<and> pos b = (row a + 1, col a)) \<or>
            (col a + 1 < SIZE \<and> pos b = (row a, col a + 1))"
        by (auto simp: pos_def)
      with vb have "(row a + 1 < SIZE \<and> cell_value ts g (row a + 1, col a) = Some (valueT a)) \<or>
            (col a + 1 < SIZE \<and> cell_value ts g (row a, col a + 1) = Some (valueT a))"
        by auto
      with va inb[OF a(1)] show ?thesis
        unfolding list_ex_iff
        by (intro bexI[of _ "row a"] bexI[of _ "col a"]) simp_all
    qed
    from t(3) consider "pos t2 = (row t1 + 1, col t1) \<or> pos t2 = (row t1, col t1 + 1)"
      | "pos t1 = (row t2 + 1, col t2) \<or> pos t1 = (row t2, col t2 + 1)"
      by (auto simp: adjacent_def pos_def)
    then show ?scan
    proof cases
      case 1
      with t show ?thesis by (intro step[of t1 t2])
    next
      case 2
      with t show ?thesis by (intro step[of t2 t1]) simp_all
    qed
  qed
  with True g show ?thesis by (simp add: canAnyMove_def)
qed

lemma board_cells: "{c. in_board c} = {..<SIZE} \<times> {..<SIZE}"
  by (auto simp: in_board_def)

lemma emptyCells_nonempty:
  assumes "length ts < 16"
  shows "emptyCells ts \<noteq> []"
proof
  assume "emptyCells ts = []"
  then have "set (emptyCells ts) = {}" by simp
  then have sub: "{c. in_board c} \<subseteq> pos ` set ts" by (auto simp: set_emptyCells)
  have "card {c. in_board c} = 16" by (simp add: board_cells SIZE_def)
  moreover have "card {c. in_board c} \<le> card (pos ` set ts)"
    using sub by (intro card_mono) simp_all
  moreover have "card (pos ` set ts) \<le> length ts"
    using card_image_le[of "set ts" pos] card_length[of ts] by simp
  ultimately show False using assms by simp
qed

lemma resolve_unique:
  assumes ok: "board_ok ts" and r: "resolve dir ts = Inr st"
  shows "loop_inv st" "map idT (store st) = map idT ts"
    "\<not> moved st \<Longrightarrow> store st = map clear_flags ts \<and> toRemove st = {} \<and> scoreGain st = 0"
  using resolve_inv[OF ok, of dir] r by auto

lemma move_eq:
  assumes r: "resolve dir (tiles s) = Inr st"
    and sp: "(if moved st then randomSpawn (filtered st) i u1 u2 else Inr (filtered st, i)) = Inr (nt, j)"
    and can: "canAnyMove nt = Inr can"
  shows "move dir u1 u2 s i =
           Inr (\<lparr>tiles = nt, score = score s + scoreGain st,
                  best = max (best s) (score s + scoreGain st),
                  won = (won s \<or> (\<exists>t \<in> set (filtered st). 2048 \<le> valueT t)),
                  over = (\<not> (won s \<or> (\<exists>t \<in> set (filtered st). 2048 \<le> valueT t)) \<and> \<not> can)\<rparr>, j)"
  using r sp can by (simp add: move_def Let_def list_ex_iff)

lemma move_board_ok:
  assumes ok: "board_ok (tiles s)" and m: "move dir u1 u2 s i = Inr (s1, i1)"
  shows "board_ok (tiles s1)"
proof -
  from m obtain st can where st: "resolve dir (tiles s) = Inr st"
    "(if moved st then randomSpawn (filtered st) i u1 u2 else Inr (filtered st, i)) = Inr (tiles s1, i1)"
    by (rule move_Inr)
  have f: "board_ok (filtered st)"
    using resolve_unique(1)[OF ok st(1)] by (rule filtered_board_ok)
  show ?thesis
  proof (cases "moved st")
    case False
    with st(2) f show ?thesis by simp
  next
    case True
    with st(2) have "randomSpawn (filtered st) i u1 u2 = Inr (tiles s1, i1)" by simp
    from randomSpawn_cases[OF this] f show ?thesis
      by (auto intro: board_ok_spawn)
  qed
qed

lemma move_over:
  assumes ok: "board_ok (tiles s)" and m: "move dir u1 u2 s i = Inr (s1, i1)"
  shows "over s1 = (\<not> won s1 \<and> emptyCells (tiles s1) = [] \<and> \<not> has_equal_neighbours (tiles s1))"
    and "over s1 = (\<not> won s1 \<and> canAnyMove (tiles s1) = Inr False)"
proof -
  from m obtain st can where c: "(if won s1 then Inr True else canAnyMove (tiles s1)) = Inr can"
    "over s1 = (\<not> won s1 \<and> \<not> can)"
    by (rule move_Inr)
  note ci = canAnyMove_iff[OF move_board_ok[OF ok m]]
  show "over s1 = (\<not> won s1 \<and> emptyCells (tiles s1) = [] \<and> \<not> has_equal_neighbours (tiles s1))"
    using c ci by (cases "won s1") auto
  show "over s1 = (\<not> won s1 \<and> canAnyMove (tiles s1) = Inr False)"
    using c ci by (cases "won s1") auto
qed

lemma move_state_ok:
  assumes "board_ok (tiles s)" "move dir u1 u2 s i = Inr (s1, i1)"
  shows "state_ok s1"
  unfolding state_ok_def using move_board_ok[OF assms] move_over(2)[OF assms] by simp

lemma newGame_cases:
  assumes "newGame v1 v2 v3 v4 s = Inr (s2, i2)"
  shows "\<exists>c1 c2 x1 x2. (x1 = 2 \<or> x1 = 4) \<and> (x2 = 2 \<or> x2 = 4) \<and> c1 \<in> set (emptyCells []) \<and>
           c2 \<in> set (emptyCells [spawn_tile 1 c1 x1]) \<and>
           tiles s2 = [spawn_tile 1 c1 x1, spawn_tile 2 c2 x2] \<and> i2 = 3"
proof -
  from assms obtain ts1 j1 where a: "randomSpawn [] 1 v1 v2 = Inr (ts1, j1)"
    "randomSpawn ts1 j1 v3 v4 = Inr (tiles s2, i2)"
    by (auto simp: newGame_def split: sum.splits prod.splits)
  have ne0: "emptyCells [] \<noteq> []" by (rule emptyCells_nonempty) simp
  from randomSpawn_cases[OF a(1)] ne0 obtain c1 x1 where c1: "c1 \<in> set (emptyCells [])"
    "x1 = 2 \<or> x1 = 4" "ts1 = [spawn_tile 1 c1 x1]" "j1 = 2"
    by auto
  have ne1: "emptyCells ts1 \<noteq> []" using c1(3) by (intro emptyCells_nonempty) simp
  from randomSpawn_cases[OF a(2)] ne1 obtain c2 x2 where c2: "c2 \<in> set (emptyCells ts1)"
    "x2 = 2 \<or> x2 = 4" "tiles s2 = ts1 @ [spawn_tile j1 c2 x2]" "i2 = j1 + 1"
    by auto
  have "c2 \<in> set (emptyCells [spawn_tile 1 c1 x1])" using c2(1) c1(3) by simp
  moreover have "tiles s2 = [spawn_tile 1 c1 x1, spawn_tile 2 c2 x2]" using c2(3) c1(3,4) by simp
  moreover have "i2 = 3" using c2(4) c1(4) by simp
  ultimately show ?thesis using c1(1,2) c2(2) by blast
qed

lemma board_ok_Nil: "board_ok []"
  by (simp add: board_ok_def)

lemma newGame_state_ok:
  assumes n: "newGame v1 v2 v3 v4 s = Inr (s2, i2)"
  shows "state_ok s2"
proof -
  from newGame_cases[OF n] obtain c1 c2 x1 x2 where c: "x1 = 2 \<or> x1 = 4" "x2 = 2 \<or> x2 = 4"
    "c1 \<in> set (emptyCells [])" "c2 \<in> set (emptyCells [spawn_tile 1 c1 x1])"
    "tiles s2 = [spawn_tile 1 c1 x1, spawn_tile 2 c2 x2]"
    by blast
  have "board_ok ([] @ [spawn_tile 1 c1 x1])"
    using board_ok_Nil c(3) c(1) by (rule board_ok_spawn)
  then have "board_ok ([spawn_tile 1 c1 x1] @ [spawn_tile 2 c2 x2])"
    using c(4) c(2) by (intro board_ok_spawn) simp_all
  with c(5) have b: "board_ok (tiles s2)" by simp
  have "emptyCells (tiles s2) \<noteq> []" using c(5) by (intro emptyCells_nonempty) simp
  then have "canAnyMove (tiles s2) = Inr True" by (simp add: canAnyMove_def)
  moreover from newGame_Inr[OF n] have "\<not> over s2" by simp
  ultimately show ?thesis using b by (simp add: state_ok_def)
qed

lemma state_ok_startup: "state_ok (startup b)"
proof -
  have "emptyCells [] \<noteq> []" by (rule emptyCells_nonempty) simp
  then show ?thesis by (simp add: state_ok_def startup_def board_ok_Nil canAnyMove_def)
qed

lemma apply_op_state_ok:
  assumes "state_ok (fst w)" "apply_op a w = Inr w'"
  shows "state_ok (fst w')"
proof (cases a)
  case (Move dir u1 u2)
  with assms(2) have "move dir u1 u2 (fst w) (snd w) = Inr (fst w', snd w')"
    by (cases w) simp
  moreover from assms(1) have "board_ok (tiles (fst w))" by (simp add: state_ok_def)
  ultimately show ?thesis by (intro move_state_ok)
next
  case (NewGame v1 v2 v3 v4)
  with assms(2) have "newGame v1 v2 v3 v4 (fst w) = Inr (fst w', snd w')"
    by (cases w) simp
  then show ?thesis by (rule newGame_state_ok)
qed

lemma run_state_ok:
  "state_ok (fst w) \<Longrightarrow> run ops w = Inr tr \<Longrightarrow> \<forall>w' \<in> set tr. state_ok (fst w')"
proof (induction ops arbitrary: w tr)
  case Nil
  then show ?case by simp
next
  case (Cons a ops)
  from Cons.prems(2) obtain w1 tr1 where s: "apply_op a w = Inr w1" "run ops w1 = Inr tr1"
      "tr = w1 # tr1"
    by (rule run_Cons)
  from apply_op_state_ok[OF Cons.prems(1) s(1)] have ok1: "state_ok (fst w1)" .
  from Cons.IH[OF ok1 s(2)] ok1 s(3) show ?case by simp
qed

lemma resolved_Inr:
  assumes "resolved dir ts = Inr (b, g, m)"
  obtains st where "resolve dir ts = Inr st" "b = filtered st" "g = scoreGain st" "m = moved st"
  using assms by (auto simp: resolved_def split: sum.splits)

lemma resolved_clear_flags: "resolved dir (map clear_flags ts) = resolved dir ts"
proof -
  have "map clear_flags (map clear_flags ts) = map clear_flags ts"
    by (induction ts) (simp_all add: clear_flags_def)
  then have "resolve dir (map clear_flags ts) = resolve dir ts"
    by (simp only: resolve_def)
  then show ?thesis by (simp only: resolved_def)
qed

lemma filtered_unmoved:
  assumes ok: "board_ok ts" and r: "resolved dir ts = Inr (b, g, False)"
  shows "b = map clear_flags ts" "g = 0"
proof -
  from r obtain st where st: "resolve dir ts = Inr st" "b = filtered st" "g = scoreGain st"
    "\<not> moved st"
    by (auto elim: resolved_Inr)
  from resolve_unique(3)[OF ok st(1) st(4)]
  have "store st = map clear_flags ts" "toRemove st = {}" "scoreGain st = 0" by simp_all
  with st(2,3) show "b = map clear_flags ts" "g = 0" by (simp_all add: filtered_def)
qed

lemma emptyCells_clear_flags: "emptyCells (map clear_flags ts) = emptyCells ts"
  by (simp add: emptyCells_def comp_def)

lemma has_equal_neighbours_clear_flags:
  "has_equal_neighbours (map clear_flags ts) = has_equal_neighbours ts"
  by (simp add: has_equal_neighbours_def)

lemma canAnyMove_clear_flags:
  "board_ok ts \<Longrightarrow> canAnyMove (map clear_flags ts) = canAnyMove ts"
  using canAnyMove_iff[of ts] canAnyMove_iff[OF board_ok_clear_flags, of ts]
  by (simp add: emptyCells_clear_flags has_equal_neighbours_clear_flags)

lemma concat_if_filter:
  "concat (map (\<lambda>c. if (r, c) \<notin> S then [(r, c)] else []) cs) =
     filter (\<lambda>c. c \<notin> S) (map (Pair r) cs)"
  by (induction cs) simp_all

lemma emptyCells_filter:
  "emptyCells ts = filter (\<lambda>c. c \<notin> pos ` set ts) (List.product [0..<SIZE] [0..<SIZE])"
proof -
  have "concat (map (\<lambda>r. filter P (map (Pair r) cs)) rs) = filter P (List.product rs cs)"
    for P :: "cell \<Rightarrow> bool" and rs cs
    by (induction rs) simp_all
  then show ?thesis by (simp only: emptyCells_def Let_def concat_if_filter set_map)
qed

lemma distinct_emptyCells: "distinct (emptyCells ts)"
  by (simp add: emptyCells_filter distinct_product)

section \<open>The claims about one move\<close>

lemma board_ok_row_2222: "board_ok row_2222"
  unfolding row_2222_def tile_def by code_simp

lemma resolved_row_2222:
  "resolved Left row_2222 = Inr ([(tile 1 0 0 4)\<lparr>merged := True\<rparr>, (tile 3 0 1 4)\<lparr>merged := True\<rparr>], 8, True)"
  unfolding row_2222_def tile_def by code_simp

lemma board_ok_row_2_4_8_16: "board_ok row_2_4_8_16"
  unfolding row_2_4_8_16_def tile_def by code_simp

lemma resolved_row_2_4_8_16:
  "resolved Left row_2_4_8_16 = Inr (map clear_flags row_2_4_8_16, 0, False)"
  unfolding row_2_4_8_16_def tile_def by code_simp

lemma state_ok_row_2_4_8_16: "state_ok (game row_2_4_8_16)"
  unfolding game_def row_2_4_8_16_def tile_def by code_simp

lemma move_row_2_4_8_16:
  "move Left (1 / 2) (1 / 20) (game row_2_4_8_16) 5 =
     Inr (game (map clear_flags row_2_4_8_16), 5)"
  unfolding game_def row_2_4_8_16_def tile_def by code_simp

lemma move_row_2222:
  "move Left 7 (1 / 20) (game row_2222) 5 =
     Inr (\<lparr>tiles = [(tile 1 0 0 4)\<lparr>merged := True\<rparr>, (tile 3 0 1 4)\<lparr>merged := True\<rparr>,
                     (tile 5 2 1 4)\<lparr>spawned := True\<rparr>],
            score = 36, best = 40, won = False, over = False\<rparr>, 6)"
  unfolding game_def row_2222_def tile_def by code_simp

lemma board_ok_nearly_full: "board_ok nearly_full"
  unfolding nearly_full_def tile_def by code_simp

lemma move_nearly_full:
  "move Left (1 / 2) 0 (game nearly_full) 16 = Inr ((game full_after)\<lparr>over := True\<rparr>, 17)"
  unfolding game_def nearly_full_def full_after_def tile_def by code_simp

lemma apply_op_board_ok:
  assumes "board_ok (tiles (fst w))" "apply_op a w = Inr w'"
  shows "board_ok (tiles (fst w'))"
proof (cases a)
  case (Move dir u1 u2)
  with assms(2) have "move dir u1 u2 (fst w) (snd w) = Inr (fst w', snd w')"
    by (cases w) simp
  with assms(1) show ?thesis by (rule move_board_ok)
next
  case (NewGame v1 v2 v3 v4)
  with assms(2) have "newGame v1 v2 v3 v4 (fst w) = Inr (fst w', snd w')"
    by (cases w) simp
  from newGame_state_ok[OF this] show ?thesis by (simp add: state_ok_def)
qed

lemma run_board_ok:
  "board_ok (tiles (fst w)) \<Longrightarrow> run ops w = Inr tr \<Longrightarrow> \<forall>w' \<in> set tr. board_ok (tiles (fst w'))"
proof (induction ops arbitrary: w tr)
  case Nil
  then show ?case by simp
next
  case (Cons a ops)
  from Cons.prems(2) obtain w1 tr1 where s: "apply_op a w = Inr w1" "run ops w1 = Inr tr1"
      "tr = w1 # tr1"
    by (rule run_Cons)
  from apply_op_board_ok[OF Cons.prems(1) s(1)] have ok1: "board_ok (tiles (fst w1))" .
  from Cons.IH[OF ok1 s(2)] ok1 s(3) show ?case by simp
qed

text \<open>
  C9. A board is well formed (\<open>board_ok\<close>) when no two tiles share a cell, every tile
  lies on the 4 by 4 board and every value is a power of two that is at least 2. A move
  from a well-formed board ends in a well-formed board, \<^verbatim>\<open>newGame\<close> always does, and
  so does every state of a run that starts from a well-formed board, the empty board
  of the initial state among them.
\<close>

theorem board_invariants_preserved:
  "(board_ok (tiles s) \<and> move dir u1 u2 s idSeq = Inr (s1, i1) \<longrightarrow> board_ok (tiles s1)) \<and>
   (newGame v1 v2 v3 v4 s = Inr (s2, i2) \<longrightarrow> board_ok (tiles s2)) \<and>
   (board_ok (tiles s) \<and> run ops (s, idSeq) = Inr tr \<longrightarrow>
      (\<forall>w \<in> set tr. board_ok (tiles (fst w)))) \<and>
   board_ok (tiles (startup b)) \<and>
   (board_ok ts \<longleftrightarrow>
      distinct (map pos ts) \<and>
      (\<forall>t \<in> set ts. row t < SIZE \<and> col t < SIZE \<and> (\<exists>k. 1 \<le> k \<and> valueT t = 2 ^ k)))"
proof (intro conjI impI)
  assume "board_ok (tiles s) \<and> move dir u1 u2 s idSeq = Inr (s1, i1)"
  then show "board_ok (tiles s1)" using move_board_ok by blast
next
  assume "newGame v1 v2 v3 v4 s = Inr (s2, i2)"
  from newGame_state_ok[OF this] show "board_ok (tiles s2)" by (simp add: state_ok_def)
next
  assume a: "board_ok (tiles s) \<and> run ops (s, idSeq) = Inr tr"
  then show "\<forall>w \<in> set tr. board_ok (tiles (fst w))"
    using run_board_ok[of "(s, idSeq)" ops tr] by simp
next
  show "board_ok (tiles (startup b))" by (simp add: startup_def board_ok_Nil)
next
  show "board_ok ts \<longleftrightarrow>
      distinct (map pos ts) \<and>
      (\<forall>t \<in> set ts. row t < SIZE \<and> col t < SIZE \<and> (\<exists>k. 1 \<le> k \<and> valueT t = 2 ^ k))"
    unfolding board_ok_def is_pow2_iff in_board_def pos_def fst_conv snd_conv by blast
qed

theorem board_invariants_preserved_witness:
  "board_ok (tiles (game row_2222)) \<and>
   move Left 7 (1 / 20) (game row_2222) 5 =
     Inr (\<lparr>tiles = [(tile 1 0 0 4)\<lparr>merged := True\<rparr>, (tile 3 0 1 4)\<lparr>merged := True\<rparr>,
                     (tile 5 2 1 4)\<lparr>spawned := True\<rparr>],
            score = 36, best = 40, won = False, over = False\<rparr>, 6) \<and>
   board_ok [(tile 1 0 0 4)\<lparr>merged := True\<rparr>, (tile 3 0 1 4)\<lparr>merged := True\<rparr>,
             (tile 5 2 1 4)\<lparr>spawned := True\<rparr>] \<and>
   run c7_ops (c7_state\<lparr>best := 2\<rparr>, 3) = Inr c7_trace \<and>
   board_ok (tiles (fst (c7_trace ! 3)))"
proof -
  have ok: "board_ok (tiles (game row_2222))"
    using board_ok_row_2222 by (simp add: game_def)
  have "board_ok (tiles \<lparr>tiles = [(tile 1 0 0 4)\<lparr>merged := True\<rparr>, (tile 3 0 1 4)\<lparr>merged := True\<rparr>,
                     (tile 5 2 1 4)\<lparr>spawned := True\<rparr>],
            score = 36, best = 40, won = False, over = False\<rparr>)"
    using board_invariants_preserved[of "game row_2222" Left 7 "1 / 20" 5 _ 6] ok move_row_2222
    by blast
  then have ok1: "board_ok [(tile 1 0 0 4)\<lparr>merged := True\<rparr>, (tile 3 0 1 4)\<lparr>merged := True\<rparr>,
             (tile 5 2 1 4)\<lparr>spawned := True\<rparr>]"
    by simp
  have ok0: "board_ok (tiles (c7_state\<lparr>best := 2\<rparr>))"
    unfolding c7_state_def by code_simp
  have "\<forall>w \<in> set c7_trace. board_ok (tiles (fst w))"
    using board_invariants_preserved[of "c7_state\<lparr>best := 2\<rparr>" _ _ _ 3 _ _ _ _ _ _ _ _ c7_ops c7_trace]
      ok0 c7_run
    by blast
  moreover have "c7_trace ! 3 \<in> set c7_trace" by (simp add: c7_trace_def)
  ultimately have "board_ok (tiles (fst (c7_trace ! 3)))" by blast
  with ok ok1 move_row_2222 c7_run show ?thesis by blast
qed

text \<open>
  C10. When the loop over the lines of a well-formed board reports \<open>moved\<close>, the board
  it leaves (\<^verbatim>\<open>filtered\<close>, the argument of \<^verbatim>\<open>randomSpawn\<close>) has an empty cell, so
  \<^verbatim>\<open>randomSpawn\<close> does not return at its guard. Whenever the move returns a state,
  that state holds the surviving tiles and one new tile at a cell that was empty, and
  \<^verbatim>\<open>idSeq\<close> has advanced by one; and the move does return such a state when the
  product \<^verbatim>\<open>Math.random() * empties.length\<close> lies from 0 up to the number of empty
  cells, as it does for every draw of \<open>[0, 1)\<close>.
\<close>

theorem spawn_guard_unreachable:
  assumes "board_ok (tiles s)" and "resolved dir (tiles s) = Inr (b, g, True)"
  shows "0 < length (emptyCells b) \<and>
         (\<forall>s1 i1. move dir x u2 s idSeq = Inr (s1, i1) \<longrightarrow>
            i1 = idSeq + 1 \<and>
            (\<exists>c \<in> set (emptyCells b).
               tiles s1 = b @ [spawn_tile idSeq c (if u2 < 1 / 10 then 4 else 2)])) \<and>
         (0 \<le> x \<and> x < of_nat (length (emptyCells b)) \<longrightarrow>
            (\<exists>s1. \<exists>c \<in> set (emptyCells b).
               randomSpawn b idSeq x u2 =
                 Inr (b @ [spawn_tile idSeq c (if u2 < 1 / 10 then 4 else 2)], idSeq + 1) \<and>
               move dir x u2 s idSeq = Inr (s1, idSeq + 1) \<and>
               tiles s1 = b @ [spawn_tile idSeq c (if u2 < 1 / 10 then 4 else 2)]))"
proof -
  let ?v = "if u2 < 1 / 10 then 4 else 2 :: int"
  from assms(2) obtain st where st: "resolve dir (tiles s) = Inr st" "b = filtered st" "moved st"
    by (auto elim: resolved_Inr)
  from resolve_unique(1)[OF assms(1) st(1)] have inv: "loop_inv st" .
  from filtered_has_empty[OF inv st(3)] st(2) have ne: "emptyCells b \<noteq> []" by simp
  from filtered_board_ok[OF inv] st(2) have okb: "board_ok b" by simp
  from ne have c1: "0 < length (emptyCells b)" by simp
  have c2: "i1 = idSeq + 1 \<and> (\<exists>c \<in> set (emptyCells b). tiles s1 = b @ [spawn_tile idSeq c ?v])"
    if m: "move dir x u2 s idSeq = Inr (s1, i1)" for s1 i1
  proof -
    from move_Inr[OF m] st(1) obtain st' where
      "resolve dir (tiles s) = Inr st'"
      "(if moved st' then randomSpawn (filtered st') idSeq x u2 else Inr (filtered st', idSeq)) =
         Inr (tiles s1, i1)"
      by blast
    with st have "randomSpawn b idSeq x u2 = Inr (tiles s1, i1)" by simp
    from randomSpawn_cases[OF this] ne show ?thesis by auto
  qed
  have c3: "\<exists>s1. \<exists>c \<in> set (emptyCells b).
               randomSpawn b idSeq x u2 = Inr (b @ [spawn_tile idSeq c ?v], idSeq + 1) \<and>
               move dir x u2 s idSeq = Inr (s1, idSeq + 1) \<and>
               tiles s1 = b @ [spawn_tile idSeq c ?v]"
    if x: "0 \<le> x \<and> x < of_nat (length (emptyCells b))"
  proof -
    let ?c = "emptyCells b ! nat \<lfloor>x\<rfloor>"
    let ?nt = "b @ [spawn_tile idSeq ?c ?v]"
    from x have "0 \<le> x" "x < of_nat (length (emptyCells b))" by simp_all
    from randomSpawn_ok[OF this, of idSeq u2]
    have idx: "nat \<lfloor>x\<rfloor> < length (emptyCells b)"
      and sp: "randomSpawn b idSeq x u2 = Inr (?nt, idSeq + 1)"
      by simp_all
    from idx have mem: "?c \<in> set (emptyCells b)" by simp
    have v: "?v = 2 \<or> ?v = 4" by simp
    have "board_ok ?nt" using okb mem v by (rule board_ok_spawn)
    from canAnyMove_iff[OF this] obtain can where can: "canAnyMove ?nt = Inr can" by blast
    have "(if moved st then randomSpawn (filtered st) idSeq x u2 else Inr (filtered st, idSeq)) =
            Inr (?nt, idSeq + 1)"
      using st(2,3) sp by simp
    from move_eq[OF st(1) this can]
    obtain s1 where s1: "move dir x u2 s idSeq = Inr (s1, idSeq + 1)" "tiles s1 = ?nt"
      by simp
    with sp mem show ?thesis by blast
  qed
  from c1 c2 c3 show ?thesis by blast
qed

theorem spawn_guard_unreachable_witness:
  "board_ok (tiles (game row_2222)) \<and>
   resolved Left (tiles (game row_2222)) =
     Inr ([(tile 1 0 0 4)\<lparr>merged := True\<rparr>, (tile 3 0 1 4)\<lparr>merged := True\<rparr>], 8, True) \<and>
   0 < length (emptyCells [(tile 1 0 0 4)\<lparr>merged := True\<rparr>, (tile 3 0 1 4)\<lparr>merged := True\<rparr>]) \<and>
   (0::rat) \<le> 7 \<and>
   (7::rat) < of_nat (length (emptyCells [(tile 1 0 0 4)\<lparr>merged := True\<rparr>,
                                           (tile 3 0 1 4)\<lparr>merged := True\<rparr>])) \<and>
   (\<exists>s1. \<exists>c \<in> set (emptyCells [(tile 1 0 0 4)\<lparr>merged := True\<rparr>, (tile 3 0 1 4)\<lparr>merged := True\<rparr>]).
      move Left 7 (1 / 20) (game row_2222) 5 = Inr (s1, 6) \<and>
      tiles s1 = [(tile 1 0 0 4)\<lparr>merged := True\<rparr>, (tile 3 0 1 4)\<lparr>merged := True\<rparr>] @
                 [spawn_tile 5 c 4])"
proof -
  let ?b = "[(tile 1 0 0 4)\<lparr>merged := True\<rparr>, (tile 3 0 1 4)\<lparr>merged := True\<rparr>]"
  have ok: "board_ok (tiles (game row_2222))"
    using board_ok_row_2222 by (simp add: game_def)
  have r: "resolved Left (tiles (game row_2222)) = Inr (?b, 8, True)"
    using resolved_row_2222 by (simp add: game_def)
  have n: "length (emptyCells ?b) = 14"
    unfolding tile_def by code_simp
  have x: "(0::rat) \<le> 7 \<and> (7::rat) < of_nat (length (emptyCells ?b))"
    unfolding n by simp
  from spawn_guard_unreachable[OF ok r, of 7 "1 / 20" 5] x
  have "0 < length (emptyCells ?b)"
    and "\<exists>s1. \<exists>c \<in> set (emptyCells ?b).
           move Left 7 (1 / 20) (game row_2222) 5 = Inr (s1, 5 + 1) \<and>
           tiles s1 = ?b @ [spawn_tile 5 c (if (1 / 20 :: rat) < 1 / 10 then 4 else 2)]"
    by blast+
  then show ?thesis using ok r x by simp
qed

lemma filtered_length:
  assumes "board_ok ts" and "resolve dir ts = Inr st"
  shows "length (filtered st) \<le> length ts"
proof -
  from resolve_unique(2)[OF assms] have "length (store st) = length ts"
    using length_map[of idT "store st"] length_map[of idT ts] by simp
  then show ?thesis using length_filter_le[of _ "store st"] by (simp add: filtered_def)
qed

text \<open>
  C6 as stated fails where tiles merge, since every merge removes a tile: the row
  \<open>[2, 2, 2, 2]\<close> moved to the left has four tiles before the move and three after it,
  the two merged tiles and the new one.
\<close>

theorem tile_count_after_merge_counterexample:
  "resolved Left (tiles (game row_2222)) =
     Inr ([(tile 1 0 0 4)\<lparr>merged := True\<rparr>, (tile 3 0 1 4)\<lparr>merged := True\<rparr>], 8, True) \<and>
   move Left 7 (1 / 20) (game row_2222) 5 =
     Inr (\<lparr>tiles = [(tile 1 0 0 4)\<lparr>merged := True\<rparr>, (tile 3 0 1 4)\<lparr>merged := True\<rparr>,
                     (tile 5 2 1 4)\<lparr>spawned := True\<rparr>],
            score = 36, best = 40, won = False, over = False\<rparr>, 6) \<and>
   length (tiles (game row_2222)) = 4 \<and>
   length [(tile 1 0 0 4)\<lparr>merged := True\<rparr>, (tile 3 0 1 4)\<lparr>merged := True\<rparr>,
           (tile 5 2 1 4)\<lparr>spawned := True\<rparr>] = 3 \<and>
   length [(tile 1 0 0 4)\<lparr>merged := True\<rparr>, (tile 3 0 1 4)\<lparr>merged := True\<rparr>,
           (tile 5 2 1 4)\<lparr>spawned := True\<rparr>] \<noteq> length (tiles (game row_2222)) + 1"
proof -
  have r: "resolved Left (tiles (game row_2222)) =
     Inr ([(tile 1 0 0 4)\<lparr>merged := True\<rparr>, (tile 3 0 1 4)\<lparr>merged := True\<rparr>], 8, True)"
    using resolved_row_2222 by (simp add: game_def)
  have l: "length (tiles (game row_2222)) = 4" by (simp add: game_def row_2222_def)
  from r move_row_2222 l show ?thesis by simp
qed

text \<open>
  C6, as the code has it. After the loop over the lines of a well-formed board has
  reported \<open>moved\<close>, the move returns the surviving tiles \<open>b\<close> with exactly one tile
  appended: one tile more than the board the loop left, which has at most as many
  tiles as the board before the move. The new tile takes the next \<^verbatim>\<open>idSeq\<close>; its
  value is 4 when the draw \<open>u2\<close> is below \<open>1/10\<close> and 2 otherwise; its cell is the
  empty cell of \<open>b\<close> whose index, in row-major order, is the floor of the product
  \<^verbatim>\<open>Math.random() * empties.length\<close>, and no surviving tile lies on it.
\<close>

theorem spawn_after_effective_move:
  assumes "board_ok (tiles s)" and "resolved dir (tiles s) = Inr (b, g, True)"
    and "0 \<le> x" and "x < of_nat (length (emptyCells b))"
  shows "\<exists>s1 c v. move dir x u2 s idSeq = Inr (s1, idSeq + 1) \<and>
           tiles s1 = b @ [spawn_tile idSeq c v] \<and> length (tiles s1) = length b + 1 \<and>
           length b \<le> length (tiles s) \<and>
           nat \<lfloor>x\<rfloor> < length (emptyCells b) \<and> c = emptyCells b ! nat \<lfloor>x\<rfloor> \<and>
           c \<in> set (emptyCells b) \<and> c \<notin> pos ` set b \<and>
           v = (if u2 < 1 / 10 then 4 else 2) \<and> (v = 2 \<or> v = 4)"
proof -
  let ?i = "nat \<lfloor>x\<rfloor>"
  let ?v = "if u2 < 1 / 10 then 4 else 2 :: int"
  let ?nt = "b @ [spawn_tile idSeq (emptyCells b ! ?i) ?v]"
  from assms(2) obtain st where st: "resolve dir (tiles s) = Inr st" "b = filtered st" "moved st"
    by (auto elim: resolved_Inr)
  from resolve_unique(1)[OF assms(1) st(1)] have inv: "loop_inv st" .
  from filtered_board_ok[OF inv] st(2) have okb: "board_ok b" by simp
  from filtered_length[OF assms(1) st(1)] st(2) have le: "length b \<le> length (tiles s)" by simp
  from randomSpawn_ok[OF assms(3,4), of idSeq u2]
  have idx: "?i < length (emptyCells b)" and sp: "randomSpawn b idSeq x u2 = Inr (?nt, idSeq + 1)"
    by simp_all
  from idx have mem: "emptyCells b ! ?i \<in> set (emptyCells b)" by simp
  then have free: "emptyCells b ! ?i \<notin> pos ` set b" by (simp add: set_emptyCells)
  have v: "?v = 2 \<or> ?v = 4" by simp
  have "board_ok ?nt" using okb mem v by (rule board_ok_spawn)
  from canAnyMove_iff[OF this] obtain can where can: "canAnyMove ?nt = Inr can" by blast
  have "(if moved st then randomSpawn (filtered st) idSeq x u2 else Inr (filtered st, idSeq)) =
          Inr (?nt, idSeq + 1)"
    using st(2,3) sp by simp
  from move_eq[OF st(1) this can]
  obtain s1 where s1: "move dir x u2 s idSeq = Inr (s1, idSeq + 1)" "tiles s1 = ?nt"
    by simp
  have "length (tiles s1) = length b + 1" using s1(2) by simp
  with s1 mem v le idx free show ?thesis
    by (intro exI[of _ s1] exI[of _ "emptyCells b ! ?i"] exI[of _ ?v]) blast
qed

theorem spawn_after_effective_move_witness:
  "board_ok (tiles (game row_2222)) \<and>
   resolved Right (tiles (game row_2222)) =
     Inr ([(tile 2 0 2 4)\<lparr>merged := True\<rparr>, (tile 4 0 3 4)\<lparr>merged := True\<rparr>], 8, True) \<and>
   (0::rat) \<le> 27 / 2 \<and>
   (27 / 2 :: rat) < of_nat (length (emptyCells [(tile 2 0 2 4)\<lparr>merged := True\<rparr>,
                                                (tile 4 0 3 4)\<lparr>merged := True\<rparr>])) \<and>
   move Right (27 / 2) (1 / 2) (game row_2222) 5 =
     Inr (\<lparr>tiles = [(tile 2 0 2 4)\<lparr>merged := True\<rparr>, (tile 4 0 3 4)\<lparr>merged := True\<rparr>,
                     (tile 5 3 3 2)\<lparr>spawned := True\<rparr>],
            score = 36, best = 40, won = False, over = False\<rparr>, 6) \<and>
   length [(tile 2 0 2 4)\<lparr>merged := True\<rparr>, (tile 4 0 3 4)\<lparr>merged := True\<rparr>,
           (tile 5 3 3 2)\<lparr>spawned := True\<rparr>] =
     length [(tile 2 0 2 4)\<lparr>merged := True\<rparr>, (tile 4 0 3 4)\<lparr>merged := True\<rparr>] + 1 \<and>
   emptyCells [(tile 2 0 2 4)\<lparr>merged := True\<rparr>, (tile 4 0 3 4)\<lparr>merged := True\<rparr>] ! nat \<lfloor>27 / 2 :: rat\<rfloor> =
     (3, 3)"
proof -
  let ?b = "[(tile 2 0 2 4)\<lparr>merged := True\<rparr>, (tile 4 0 3 4)\<lparr>merged := True\<rparr>]"
  have ok: "board_ok (tiles (game row_2222))"
    using board_ok_row_2222 by (simp add: game_def)
  have r: "resolved Right (tiles (game row_2222)) = Inr (?b, 8, True)"
    unfolding game_def row_2222_def tile_def by code_simp
  have n: "length (emptyCells ?b) = 14"
    unfolding tile_def by code_simp
  have x: "(0::rat) \<le> 27 / 2" "(27 / 2 :: rat) < of_nat (length (emptyCells ?b))"
    unfolding n by simp_all
  have m: "move Right (27 / 2) (1 / 2) (game row_2222) 5 =
     Inr (\<lparr>tiles = [(tile 2 0 2 4)\<lparr>merged := True\<rparr>, (tile 4 0 3 4)\<lparr>merged := True\<rparr>,
                     (tile 5 3 3 2)\<lparr>spawned := True\<rparr>],
            score = 36, best = 40, won = False, over = False\<rparr>, 6)"
    unfolding game_def row_2222_def tile_def by code_simp
  have c: "emptyCells ?b ! nat \<lfloor>27 / 2 :: rat\<rfloor> = (3, 3)"
    unfolding tile_def by code_simp
  from spawn_after_effective_move[OF ok r x, of "1 / 2" 5]
  obtain s1 where "move Right (27 / 2) (1 / 2) (game row_2222) 5 = Inr (s1, 5 + 1)"
    "length (tiles s1) = length ?b + 1"
    by blast
  with m have "length [(tile 2 0 2 4)\<lparr>merged := True\<rparr>, (tile 4 0 3 4)\<lparr>merged := True\<rparr>,
           (tile 5 3 3 2)\<lparr>spawned := True\<rparr>] = length ?b + 1"
    by simp
  with ok r x m c show ?thesis by blast
qed

text \<open>
  C5. \<open>state_ok\<close> holds in every state the engine reaches: the board is well formed
  and \<open>over\<close> is what the last move or \<^verbatim>\<open>newGame\<close> computed for this board. When the
  loop over the lines reports that nothing moved, the move returns without a spawn
  (\<^verbatim>\<open>idSeq\<close> is unchanged and the tiles are the copies with their flags cleared: same
  number, same ids, cells and values), the score is unchanged, and \<open>over\<close> is not set
  unless it was set before.
\<close>

theorem ineffective_move_is_frame:
  assumes "state_ok s" and "resolved dir (tiles s) = Inr (b, g, False)"
  shows "\<exists>s1. move dir u1 u2 s idSeq = Inr (s1, idSeq) \<and>
           tiles s1 = map clear_flags (tiles s) \<and> length (tiles s1) = length (tiles s) \<and>
           map idT (tiles s1) = map idT (tiles s) \<and> map pos (tiles s1) = map pos (tiles s) \<and>
           map valueT (tiles s1) = map valueT (tiles s) \<and>
           g = 0 \<and> score s1 = score s \<and> (over s1 \<longrightarrow> over s)"
proof -
  from assms(1) have ok: "board_ok (tiles s)"
    and ov: "over s = (\<not> won s \<and> canAnyMove (tiles s) = Inr False)"
    by (simp_all add: state_ok_def)
  from filtered_unmoved[OF ok assms(2)] have b: "b = map clear_flags (tiles s)" and g: "g = 0" .
  from assms(2) obtain st where st: "resolve dir (tiles s) = Inr st" "b = filtered st"
    "g = scoreGain st" "\<not> moved st"
    by (auto elim: resolved_Inr)
  have can: "canAnyMove b = canAnyMove (tiles s)"
    unfolding b using ok by (rule canAnyMove_clear_flags)
  from canAnyMove_iff[OF ok] obtain c where c: "canAnyMove (tiles s) = Inr c" by blast
  have "(if moved st then randomSpawn (filtered st) idSeq u1 u2 else Inr (filtered st, idSeq)) =
          Inr (b, idSeq)"
    using st(2,4) by simp
  from move_eq[OF st(1) this, of c] can c
  obtain s1 where s1: "move dir u1 u2 s idSeq = Inr (s1, idSeq)" "tiles s1 = b"
    "score s1 = score s + scoreGain st"
    "over s1 = (\<not> (won s \<or> (\<exists>t \<in> set (filtered st). 2048 \<le> valueT t)) \<and> \<not> c)"
    by simp
  have "over s1 \<longrightarrow> over s" using s1(4) ov c by auto
  moreover have "score s1 = score s" using s1(3) st(3) g by simp
  moreover have "map idT (map clear_flags (tiles s)) = map idT (tiles s)"
    "map pos (map clear_flags (tiles s)) = map pos (tiles s)"
    "map valueT (map clear_flags (tiles s)) = map valueT (tiles s)"
    by (simp_all add: comp_def)
  ultimately show ?thesis using s1(1,2) b g by (intro exI[of _ s1]) simp
qed

theorem ineffective_move_is_frame_witness:
  "state_ok (game row_2_4_8_16) \<and>
   resolved Left (tiles (game row_2_4_8_16)) = Inr (map clear_flags row_2_4_8_16, 0, False) \<and>
   move Left (1 / 2) (1 / 20) (game row_2_4_8_16) 5 = Inr (game (map clear_flags row_2_4_8_16), 5) \<and>
   score (game (map clear_flags row_2_4_8_16)) = score (game row_2_4_8_16) \<and>
   map valueT (tiles (game (map clear_flags row_2_4_8_16))) = [2, 4, 8, 16]"
proof -
  have r: "resolved Left (tiles (game row_2_4_8_16)) = Inr (map clear_flags row_2_4_8_16, 0, False)"
    using resolved_row_2_4_8_16 by (simp add: game_def)
  from ineffective_move_is_frame[OF state_ok_row_2_4_8_16 r, of "1 / 2" "1 / 20" 5]
  obtain s1 where "move Left (1 / 2) (1 / 20) (game row_2_4_8_16) 5 = Inr (s1, 5)"
    "score s1 = score (game row_2_4_8_16)"
    "map valueT (tiles s1) = map valueT (tiles (game row_2_4_8_16))"
    by blast
  with move_row_2_4_8_16
  have "score (game (map clear_flags row_2_4_8_16)) = score (game row_2_4_8_16)"
    "map valueT (tiles (game (map clear_flags row_2_4_8_16))) = map valueT (tiles (game row_2_4_8_16))"
    by simp_all
  moreover have "map valueT (tiles (game row_2_4_8_16)) = [2, 4, 8, 16]"
    by (simp add: game_def row_2_4_8_16_def tile_def)
  ultimately show ?thesis using state_ok_row_2_4_8_16 r move_row_2_4_8_16 by simp
qed

text \<open>
  C8. When the loop over the lines of a well-formed board reports that nothing moved,
  the state the move returns is a fixed point of the same move: the second call
  reports again that nothing moved and returns the same GameState and the same
  \<^verbatim>\<open>idSeq\<close>, whatever the draws are.
\<close>

theorem ineffective_move_idempotent:
  assumes "board_ok (tiles s)" and "resolved dir (tiles s) = Inr (b, g, False)"
    and "move dir u1 u2 s idSeq = Inr (s1, i1)"
  shows "i1 = idSeq \<and> resolved dir (tiles s1) = Inr (b, g, False) \<and>
         move dir u3 u4 s1 i1 = Inr (s1, i1)"
proof -
  from filtered_unmoved[OF assms(1,2)] have b: "b = map clear_flags (tiles s)" and g: "g = 0" .
  from assms(2) obtain st where st: "resolve dir (tiles s) = Inr st" "b = filtered st"
    "g = scoreGain st" "\<not> moved st"
    by (auto elim: resolved_Inr)
  have okb: "board_ok b" unfolding b using assms(1) by (rule board_ok_clear_flags)
  from canAnyMove_iff[OF okb] obtain c where c: "canAnyMove b = Inr c" by blast
  let ?E = "\<exists>t \<in> set b. 2048 \<le> valueT t"
  have sp: "(if moved st then randomSpawn (filtered st) idSeq u1 u2 else Inr (filtered st, idSeq)) =
          Inr (b, idSeq)"
    using st(2,4) by simp
  from move_eq[OF st(1) sp c] assms(3) st(2,3) g
  have s1: "s1 = \<lparr>tiles = b, score = score s, best = max (best s) (score s),
                  won = (won s \<or> ?E), over = (\<not> (won s \<or> ?E) \<and> \<not> c)\<rparr>" and i1: "i1 = idSeq"
    by simp_all
  have r2: "resolved dir (tiles s1) = Inr (b, g, False)"
    using s1 b resolved_clear_flags[of dir "tiles s"] assms(2) by simp
  then obtain st2 where st2: "resolve dir (tiles s1) = Inr st2" "b = filtered st2"
    "g = scoreGain st2" "\<not> moved st2"
    by (auto elim: resolved_Inr)
  have sp2: "(if moved st2 then randomSpawn (filtered st2) i1 u3 u4 else Inr (filtered st2, i1)) =
          Inr (b, i1)"
    using st2(2,4) by simp
  have "move dir u3 u4 s1 i1 = Inr (s1, i1)"
    using move_eq[OF st2(1) sp2 c] st2(2,3) g by (simp add: s1)
  with i1 r2 show ?thesis by simp
qed

theorem ineffective_move_idempotent_witness:
  "board_ok (tiles (game row_2_4_8_16)) \<and>
   resolved Left (tiles (game row_2_4_8_16)) = Inr (map clear_flags row_2_4_8_16, 0, False) \<and>
   move Left (1 / 2) (1 / 20) (game row_2_4_8_16) 5 = Inr (game (map clear_flags row_2_4_8_16), 5) \<and>
   move Left (3 / 4) 0 (game (map clear_flags row_2_4_8_16)) 5 =
     Inr (game (map clear_flags row_2_4_8_16), 5)"
proof -
  have ok: "board_ok (tiles (game row_2_4_8_16))"
    using board_ok_row_2_4_8_16 by (simp add: game_def)
  have r: "resolved Left (tiles (game row_2_4_8_16)) = Inr (map clear_flags row_2_4_8_16, 0, False)"
    using resolved_row_2_4_8_16 by (simp add: game_def)
  from ineffective_move_idempotent[OF ok r move_row_2_4_8_16, of "3 / 4" 0]
  have "move Left (3 / 4) 0 (game (map clear_flags row_2_4_8_16)) 5 =
     Inr (game (map clear_flags row_2_4_8_16), 5)"
    by simp
  with ok r move_row_2_4_8_16 show ?thesis by simp
qed

text \<open>
  C3. After a move from a well-formed board, \<open>over\<close> holds exactly when \<open>won\<close> does
  not, the board has no empty cell, and no two tiles on cells that are neighbours in a
  row or in a column have the same value. An empty cell, or one such pair, makes
  \<open>over\<close> false. The empty cells are the cells of the board that no tile is on.
\<close>

theorem over_iff_no_move_left:
  assumes "board_ok (tiles s)" and "move dir u1 u2 s idSeq = Inr (s1, i1)"
  shows "(over s1 \<longleftrightarrow>
            \<not> won s1 \<and> emptyCells (tiles s1) = [] \<and> \<not> has_equal_neighbours (tiles s1)) \<and>
         (emptyCells (tiles s1) \<noteq> [] \<or> has_equal_neighbours (tiles s1) \<longrightarrow> \<not> over s1) \<and>
         set (emptyCells (tiles s1)) = {c. in_board c \<and> c \<notin> pos ` set (tiles s1)}"
  using move_over(1)[OF assms] set_emptyCells[of "tiles s1"] by blast

theorem over_iff_no_move_left_witness:
  "board_ok (tiles (game nearly_full)) \<and>
   move Left (1 / 2) 0 (game nearly_full) 16 = Inr ((game full_after)\<lparr>over := True\<rparr>, 17) \<and>
   over ((game full_after)\<lparr>over := True\<rparr>) \<and>
   \<not> won ((game full_after)\<lparr>over := True\<rparr>) \<and>
   emptyCells (tiles ((game full_after)\<lparr>over := True\<rparr>)) = [] \<and>
   \<not> has_equal_neighbours (tiles ((game full_after)\<lparr>over := True\<rparr>))"
proof -
  have ok: "board_ok (tiles (game nearly_full))"
    using board_ok_nearly_full by (simp add: game_def)
  have "over ((game full_after)\<lparr>over := True\<rparr>)" by simp
  with over_iff_no_move_left[OF ok move_nearly_full]
  have "\<not> won ((game full_after)\<lparr>over := True\<rparr>) \<and>
        emptyCells (tiles ((game full_after)\<lparr>over := True\<rparr>)) = [] \<and>
        \<not> has_equal_neighbours (tiles ((game full_after)\<lparr>over := True\<rparr>))"
    by blast
  with ok move_nearly_full show ?thesis by simp
qed

section \<open>One line of the board\<close>

lemma place_all_preserves:
  assumes line: "line_ok coords"
    and step: "\<And>st ti cur rest st' ti'. loop_inv st \<Longrightarrow> Q st \<Longrightarrow>
      lineTiles (grid st) (drop ti coords) = cur # rest \<Longrightarrow>
      place coords cur st ti = Inr (st', ti') \<Longrightarrow> Q st'"
  shows "loop_inv st \<Longrightarrow> Q st \<Longrightarrow> lineTiles (grid st) (drop ti coords) = lt \<Longrightarrow>
         place_all coords lt st ti = Inr st' \<Longrightarrow> Q st'"
proof (induction lt arbitrary: st ti)
  case Nil
  then show ?case by simp
next
  case (Cons cur rest)
  from place_step[OF Cons.prems(1) line Cons.prems(3)]
  obtain st1 ti1 where s1: "place coords cur st ti = Inr (st1, ti1)" "loop_inv st1"
      "lineTiles (grid st1) (drop ti1 coords) = rest"
    by blast
  from step[OF Cons.prems(1,2,3) s1(1)] have q1: "Q st1" .
  from Cons.prems(4) s1(1) have "place_all coords rest st1 ti1 = Inr st'" by simp
  from Cons.IH[OF s1(2) q1 s1(3) this] show ?case .
qed

lemma resolve_line_preserves:
  assumes line: "line_ok coords"
    and step: "\<And>st ti cur rest st' ti'. loop_inv st \<Longrightarrow> Q st \<Longrightarrow>
      lineTiles (grid st) (drop ti coords) = cur # rest \<Longrightarrow>
      place coords cur st ti = Inr (st', ti') \<Longrightarrow> Q st'"
    and inv: "loop_inv st" and q: "Q st" and r: "resolve_line coords st = Inr st'"
  shows "Q st'"
proof (cases "lineTiles (grid st) coords = []")
  case True
  with r q show ?thesis by (simp add: resolve_line_def)
next
  case False
  with r have "place_all coords (lineTiles (grid st) coords) st 0 = Inr st'"
    by (simp add: resolve_line_def Let_def)
  moreover have "lineTiles (grid st) (drop 0 coords) = lineTiles (grid st) coords" by simp
  ultimately show ?thesis
    using place_all_preserves[of coords Q st 0 "lineTiles (grid st) coords" st'] line step inv q
    by blast
qed

lemma place_live:
  assumes inv: "loop_inv st" and lv: "live st" and dist: "distinct coords"
    and lt: "lineTiles (grid st) (drop ti coords) = cur # rest"
    and pl: "place coords cur st ti = Inr (st', ti')"
  shows "live st'"
proof -
  from inv have ok: "grid_ok st" by (simp add: loop_inv_def)
  from lv have di: "distinct (map idT (store st))"
    and al: "\<And>c p. grid st c = Some p \<Longrightarrow> idT (store st ! p) \<notin> toRemove st"
    by (auto simp: live_def)
  have idneq: "idT (store st ! p) \<noteq> idT (store st ! q)"
    if "p < length (store st)" "q < length (store st)" "p \<noteq> q" for p q
    using di that nth_eq_iff_index_eq[of "map idT (store st)" p q] by simp
  from ok dist lt show ?thesis
  proof (cases rule: place_cases)
    case (merge j p)
    from grid_okD[OF ok merge(4)] have cur: "cur < length (store st)"
        "pos (store st ! cur) = coords ! j" by simp_all
    from grid_okD[OF ok merge(7)] have p: "p < length (store st)" by simp
    from merge(10) pl have st': "st' = st\<lparr>grid := (grid st)(coords ! j := None), moved := True,
                 store := (store st)[p := (store st ! p)\<lparr>valueT := valueT (store st ! p) * 2,
                                                        merged := True\<rparr>],
                 scoreGain := scoreGain st + valueT (store st ! p) * 2,
                 toRemove := insert (idT (store st ! cur)) (toRemove st)\<rparr>"
      by simp
    have ids: "map idT (store st') = map idT (store st)"
      using p by (simp add: st' map_update list_update_same_conv)
    have idn: "idT (store st' ! q) = idT (store st ! q)" if "q < length (store st)" for q
      using that p by (simp add: st' nth_list_update)
    have "idT (store st' ! q) \<notin> toRemove st'" if g: "grid st' c = Some q" for c q
    proof -
      from g have g0: "grid st c = Some q" "c \<noteq> coords ! j"
        by (auto simp: st' split: if_splits)
      from grid_okD[OF ok g0(1)] have q: "q < length (store st)" "pos (store st ! q) = c"
        by simp_all
      with g0(2) cur(2) have "q \<noteq> cur" by auto
      from idneq[OF q(1) cur(1) this] al[OF g0(1)] idn[OF q(1)]
      show ?thesis by (simp add: st')
    qed
    with ids di show ?thesis unfolding live_def by metis
  next
    case (slide j)
    from grid_okD[OF ok slide(3)] have cur: "cur < length (store st)"
        "pos (store st ! cur) = coords ! j" by simp_all
    from slide(6) pl have st': "st' = st\<lparr>moved := (moved st \<or> j \<noteq> ti),
                 grid := (grid st)(coords ! j := None, coords ! ti \<mapsto> cur),
                 store := (store st)[cur := (store st ! cur)\<lparr>row := fst (coords ! ti),
                                                            col := snd (coords ! ti)\<rparr>]\<rparr>"
      by simp
    have ids: "map idT (store st') = map idT (store st)"
      using cur(1) by (simp add: st' map_update list_update_same_conv)
    have idn: "idT (store st' ! q) = idT (store st ! q)" if "q < length (store st)" for q
      using that cur(1) by (cases "q = cur") (simp_all add: st')
    have "idT (store st' ! q) \<notin> toRemove st'" if g: "grid st' c = Some q" for c q
    proof (cases "c = coords ! ti")
      case True
      with g have "q = cur" by (simp add: st')
      with al[OF slide(3)] idn[OF cur(1)] show ?thesis by (simp add: st')
    next
      case False
      with g have g0: "grid st c = Some q" by (auto simp: st' split: if_splits)
      from grid_okD[OF ok g0] have "q < length (store st)" by simp
      from idn[OF this] al[OF g0] show ?thesis by (simp add: st')
    qed
    with ids di show ?thesis unfolding live_def by metis
  qed
qed

lemma place_frame:
  assumes inv: "loop_inv st" and fr: "frame coords st0 st" and gs: "grid_ok st0"
    and dist: "distinct coords"
    and lt: "lineTiles (grid st) (drop ti coords) = cur # rest"
    and pl: "place coords cur st ti = Inr (st', ti')"
  shows "frame coords st0 st'"
proof -
  from inv have ok: "grid_ok st" by (simp add: loop_inv_def)
  have out: "grid st c = grid st0 c" "\<And>p. grid st0 c = Some p \<Longrightarrow> store st ! p = store st0 ! p"
    if "c \<notin> set coords" for c
    using fr that unfolding frame_def by blast+
  from ok dist lt show ?thesis
  proof (cases rule: place_cases)
    case (merge j p)
    from grid_okD[OF ok merge(7)] have p: "p < length (store st)"
      "pos (store st ! p) = coords ! (ti - 1)" by simp_all
    have pin: "coords ! (ti - 1) \<in> set coords" "coords ! j \<in> set coords"
      using merge(1,2,3) by simp_all
    from merge(10) pl have st': "st' = st\<lparr>grid := (grid st)(coords ! j := None), moved := True,
                 store := (store st)[p := (store st ! p)\<lparr>valueT := valueT (store st ! p) * 2,
                                                        merged := True\<rparr>],
                 scoreGain := scoreGain st + valueT (store st ! p) * 2,
                 toRemove := insert (idT (store st ! cur)) (toRemove st)\<rparr>"
      by simp
    show ?thesis
      unfolding frame_def
    proof (intro allI impI conjI)
      fix c assume c: "c \<notin> set coords"
      with pin(2) have "c \<noteq> coords ! j" by auto
      then show "grid st' c = grid st0 c" using out(1)[OF c] by (simp add: st')
      fix q assume q0: "grid st0 c = Some q"
      then have "grid st c = Some q" using out(1)[OF c] by simp
      from grid_okD[OF ok this] have "pos (store st ! q) = c" by simp
      with p(2) pin(1) c have "q \<noteq> p" by auto
      then show "store st' ! q = store st0 ! q" using out(2)[OF c q0] by (simp add: st')
    qed
  next
    case (slide j)
    from grid_okD[OF ok slide(3)] have cur: "cur < length (store st)"
        "pos (store st ! cur) = coords ! j" by simp_all
    have pin: "coords ! ti \<in> set coords" "coords ! j \<in> set coords"
      using slide(1,2) by simp_all
    from slide(6) pl have st': "st' = st\<lparr>moved := (moved st \<or> j \<noteq> ti),
                 grid := (grid st)(coords ! j := None, coords ! ti \<mapsto> cur),
                 store := (store st)[cur := (store st ! cur)\<lparr>row := fst (coords ! ti),
                                                            col := snd (coords ! ti)\<rparr>]\<rparr>"
      by simp
    show ?thesis
      unfolding frame_def
    proof (intro allI impI conjI)
      fix c assume c: "c \<notin> set coords"
      with pin have "c \<noteq> coords ! j" "c \<noteq> coords ! ti" by auto
      then show "grid st' c = grid st0 c" using out(1)[OF c] by (simp add: st')
      fix q assume q0: "grid st0 c = Some q"
      then have "grid st c = Some q" using out(1)[OF c] by simp
      from grid_okD[OF ok this] have "pos (store st ! q) = c" by simp
      with cur(2) pin(2) c have "q \<noteq> cur" by auto
      then show "store st' ! q = store st0 ! q" using out(2)[OF c q0] by (simp add: st')
    qed
  qed
qed

lemma frame_refl: "frame coords st st"
  by (simp add: frame_def)

lemma resolve_line_live:
  assumes "line_ok coords" "loop_inv st" "live st" "resolve_line coords st = Inr st'"
  shows "live st'"
proof (rule resolve_line_preserves[where Q = live, OF assms(1) _ assms(2,3,4)])
  fix st ti cur rest st' ti'
  assume "loop_inv st" "live st" "lineTiles (grid st) (drop ti coords) = cur # rest"
    "place coords cur st ti = Inr (st', ti')"
  then show "live st'"
    using place_live[of st coords ti cur rest st' ti'] assms(1) by (simp add: line_ok_def)
qed

lemma resolve_line_frame:
  assumes "line_ok coords" "loop_inv st" "resolve_line coords st = Inr st'"
  shows "frame coords st st'"
proof -
  from assms(2) have gs: "grid_ok st" by (simp add: loop_inv_def)
  show ?thesis
  proof (rule resolve_line_preserves[where Q = "frame coords st", OF assms(1) _ assms(2) frame_refl assms(3)])
    fix sa ti cur rest sb ti'
    assume "loop_inv sa" "frame coords st sa" "lineTiles (grid sa) (drop ti coords) = cur # rest"
      "place coords cur sa ti = Inr (sb, ti')"
    then show "frame coords st sb"
      using place_frame[of sa coords st ti cur rest sb ti'] gs assms(1) by (simp add: line_ok_def)
  qed
qed

lemma line_aabb:
  assumes c: "distinct [c0, c1, c2, c3]"
    and ok: "grid_ok st"
    and g: "grid st c0 = Some p0" "grid st c1 = Some p1" "grid st c2 = Some p2" "grid st c3 = Some p3"
    and v: "valueT (store st ! p0) = a" "valueT (store st ! p1) = a"
           "valueT (store st ! p2) = b" "valueT (store st ! p3) = b"
    and m: "\<not> merged (store st ! p0)" "\<not> merged (store st ! p2)"
  shows "\<exists>st'. resolve_line [c0, c1, c2, c3] st = Inr st' \<and>
           grid st' c0 = Some p0 \<and> grid st' c1 = Some p2 \<and> grid st' c2 = None \<and> grid st' c3 = None \<and>
           valueT (store st' ! p0) = a * 2 \<and> valueT (store st' ! p2) = b * 2 \<and>
           merged (store st' ! p0) \<and> merged (store st' ! p2) \<and>
           scoreGain st' = scoreGain st + (a * 2 + b * 2) \<and> moved st' \<and>
           toRemove st' = insert (idT (store st ! p3)) (insert (idT (store st ! p1)) (toRemove st))"
proof -
  from grid_okD[OF ok g(1)] grid_okD[OF ok g(2)] grid_okD[OF ok g(3)] grid_okD[OF ok g(4)]
  have len: "p0 < length (store st)" "p1 < length (store st)" "p2 < length (store st)"
      "p3 < length (store st)"
    and ps: "pos (store st ! p0) = c0" "pos (store st ! p1) = c1" "pos (store st ! p2) = c2"
      "pos (store st ! p3) = c3"
    and inb: "in_board c0" "in_board c1" "in_board c2" "in_board c3"
    by simp_all
  from ps c have pd: "p0 \<noteq> p1" "p0 \<noteq> p2" "p0 \<noteq> p3" "p1 \<noteq> p2" "p1 \<noteq> p3" "p2 \<noteq> p3"
    by auto
  from c have cd: "c0 \<noteq> c1" "c0 \<noteq> c2" "c0 \<noteq> c3" "c1 \<noteq> c2" "c1 \<noteq> c3" "c2 \<noteq> c3"
    "c1 \<noteq> c0" "c2 \<noteq> c0" "c3 \<noteq> c0" "c2 \<noteq> c1" "c3 \<noteq> c1" "c3 \<noteq> c2"
    by auto
  have rows: "row (store st ! p0) < SIZE" "row (store st ! p1) < SIZE"
    "row (store st ! p2) < SIZE" "row (store st ! p3) < SIZE"
    using ps inb by (auto simp: pos_def in_board_def)
  have rc: "row (store st ! p0) = fst c0" "col (store st ! p0) = snd c0"
    "row (store st ! p1) = fst c1" "col (store st ! p1) = snd c1"
    "row (store st ! p2) = fst c2" "col (store st ! p2) = snd c2"
    "row (store st ! p3) = fst c3" "col (store st ! p3) = snd c3"
    using ps by (auto simp: pos_def)
  have lt: "lineTiles (grid st) [c0, c1, c2, c3] = [p0, p1, p2, p3]"
    using g by simp
  show ?thesis
    unfolding resolve_line_def lt
    using g v m len pd cd rows ps
    by (simp add: place_def Let_def advance.simps[of _ "[c0, c1, c2, c3]"] nth_list_update
        fun_upd_apply)
qed

lemma value_at_Some:
  assumes "distinct (map pos ts)"
  shows "value_at ts c = Some v \<longleftrightarrow> (\<exists>t \<in> set ts. pos t = c \<and> valueT t = v)"
proof
  assume "value_at ts c = Some v"
  then obtain t where "find (\<lambda>t. pos t = c) ts = Some t" "valueT t = v"
    by (auto simp: value_at_def)
  then show "\<exists>t \<in> set ts. pos t = c \<and> valueT t = v"
    by (auto simp: find_Some_iff)
next
  assume "\<exists>t \<in> set ts. pos t = c \<and> valueT t = v"
  then obtain t where t: "t \<in> set ts" "pos t = c" "valueT t = v" by blast
  then have "find (\<lambda>t. pos t = c) ts \<noteq> None" by (auto simp: find_None_iff)
  then obtain t' where f: "find (\<lambda>t. pos t = c) ts = Some t'" by auto
  then have t': "t' \<in> set ts" "pos t' = c" by (auto simp: find_Some_iff)
  from assms have "inj_on pos (set ts)" by (simp add: distinct_map)
  with t t' have "t' = t" by (auto dest: inj_onD)
  with f t(3) show "value_at ts c = Some v" by (simp add: value_at_def)
qed

lemma value_at_None: "value_at ts c = None \<longleftrightarrow> c \<notin> pos ` set ts"
  by (auto simp: value_at_def find_None_iff)

lemma lines_length: "length (lines dir) = SIZE"
  by (simp add: lines_def)

lemma upt_SIZE: "[0..<SIZE] = [0, 1, 2, 3]"
  by code_simp

lemma lines_nth:
  assumes "k < SIZE"
  shows "lines dir ! k =
           (case dir of Left \<Rightarrow> [(k, 0), (k, 1), (k, 2), (k, 3)]
                      | Right \<Rightarrow> [(k, 3), (k, 2), (k, 1), (k, 0)]
                      | Up \<Rightarrow> [(0, k), (1, k), (2, k), (3, k)]
                      | Down \<Rightarrow> [(3, k), (2, k), (1, k), (0, k)])"
proof -
  have n: "map f [0..<SIZE] ! k = f k" for f :: "nat \<Rightarrow> cell list"
    using assms by simp
  show ?thesis
    by (cases dir) (simp_all add: lines_def n Let_def, simp_all add: upt_SIZE)
qed

lemma lines_disjoint:
  assumes "i < SIZE" "j < SIZE" "i \<noteq> j"
  shows "set (lines dir ! i) \<inter> set (lines dir ! j) = {}"
  using assms by (cases dir) (auto simp: lines_nth)

lemma lines_four:
  assumes "k < SIZE"
  obtains c0 c1 c2 c3 where "lines dir ! k = [c0, c1, c2, c3]" "distinct [c0, c1, c2, c3]"
  using assms by (cases dir) (auto simp: lines_nth)

lemma resolve_lines_append:
  "resolve_lines (xs @ ys) st =
     (case resolve_lines xs st of Inl e \<Rightarrow> Inl e | Inr st' \<Rightarrow> resolve_lines ys st')"
  by (induction xs arbitrary: st) (auto split: sum.splits)

lemma agree_refl: "agree coords st st"
  by (simp add: agree_def)

lemma agree_frame:
  assumes a: "agree coords st0 st" and f: "frame coords' st st'"
    and d: "set coords' \<inter> set coords = {}"
  shows "agree coords st0 st'"
  unfolding agree_def
proof (intro ballI conjI allI impI)
  fix c assume c: "c \<in> set coords"
  with d have nc: "c \<notin> set coords'" by auto
  from a c have a1: "grid st c = grid st0 c"
    and a2: "\<And>p. grid st0 c = Some p \<Longrightarrow> store st ! p = store st0 ! p"
    unfolding agree_def by blast+
  from f nc have f1: "grid st' c = grid st c"
    and f2: "\<And>p. grid st c = Some p \<Longrightarrow> store st' ! p = store st ! p"
    unfolding frame_def by blast+
  show "grid st' c = grid st0 c" using a1 f1 by simp
  fix p assume p: "grid st0 c = Some p"
  with a1 have "grid st c = Some p" by simp
  from f2[OF this] a2[OF p] show "store st' ! p = store st0 ! p" by simp
qed

lemma resolve_lines_agree:
  "\<forall>l \<in> set ls. line_ok l \<and> set l \<inter> set coords = {} \<Longrightarrow> loop_inv st \<Longrightarrow> live st \<Longrightarrow>
   agree coords st0 st \<Longrightarrow> resolve_lines ls st = Inr st' \<Longrightarrow>
   loop_inv st' \<and> live st' \<and> agree coords st0 st' \<and> (moved st \<longrightarrow> moved st')"
proof (induction ls arbitrary: st)
  case Nil
  then show ?case by simp
next
  case (Cons l ls)
  from Cons.prems(1) have l: "line_ok l" "set l \<inter> set coords = {}" by simp_all
  from resolve_line_inv[OF l(1) Cons.prems(2)]
  obtain st1 where s1: "resolve_line l st = Inr st1" "loop_inv st1" "step_rel st st1"
    by blast
  from resolve_line_live[OF l(1) Cons.prems(2,3) s1(1)] have lv1: "live st1" .
  from resolve_line_frame[OF l(1) Cons.prems(2) s1(1)] have "frame l st st1" .
  from agree_frame[OF Cons.prems(4) this l(2)] have ag1: "agree coords st0 st1" .
  from Cons.prems(5) s1(1) have r: "resolve_lines ls st1 = Inr st'" by simp
  from Cons.prems(1) have "\<forall>l \<in> set ls. line_ok l \<and> set l \<inter> set coords = {}" by simp
  from Cons.IH[OF this s1(2) lv1 ag1 r] s1(3) show ?case by (simp add: step_rel_def)
qed

lemma filtered_value_at:
  assumes inv: "loop_inv st" and lv: "live st"
  shows "grid st c = Some p \<Longrightarrow> value_at (filtered st) c = Some (valueT (store st ! p))"
    and "grid st c = None \<Longrightarrow> value_at (filtered st) c = None"
proof -
  from inv have ok: "grid_ok st" by (simp add: loop_inv_def)
  from filtered_board_ok[OF inv] have d: "distinct (map pos (filtered st))"
    by (simp add: board_ok_def)
  {
    assume g: "grid st c = Some p"
    from grid_okD[OF ok g] have p: "p < length (store st)" "pos (store st ! p) = c" by simp_all
    from lv g have "idT (store st ! p) \<notin> toRemove st" unfolding live_def by blast
    with p(1) have "store st ! p \<in> set (filtered st)" by (simp add: filtered_def)
    with p(2) show "value_at (filtered st) c = Some (valueT (store st ! p))"
      using value_at_Some[OF d] by blast
  }
  {
    assume g: "grid st c = None"
    have "c \<notin> pos ` set (filtered st)"
    proof
      assume "c \<in> pos ` set (filtered st)"
      then obtain t where "t \<in> set (filtered st)" "pos t = c" by auto
      with filtered_nth[OF inv] g show False by fastforce
    qed
    then show "value_at (filtered st) c = None" by (simp add: value_at_None)
  }
qed

lemma resolve_upto_eq:
  "build_grid (map clear_flags ts) = Inr g \<Longrightarrow>
   resolve_upto n dir ts = resolve_lines (take n (lines dir)) (init_state (map clear_flags ts) g)"
  by (simp add: resolve_upto_def init_state_def)

lemma lines_split:
  assumes k: "k < SIZE"
  shows "lines dir = take k (lines dir) @ lines dir ! k # drop (Suc k) (lines dir)"
    and "\<forall>l \<in> set (take k (lines dir)). line_ok l \<and> set l \<inter> set (lines dir ! k) = {}"
    and "\<forall>l \<in> set (drop (Suc k) (lines dir)). line_ok l \<and> set l \<inter> set (lines dir ! k) = {}"
proof -
  from k have kl: "k < length (lines dir)" by (simp add: lines_length)
  then show "lines dir = take k (lines dir) @ lines dir ! k # drop (Suc k) (lines dir)"
    by (rule id_take_nth_drop)
  have any: "line_ok (lines dir ! i) \<and> set (lines dir ! i) \<inter> set (lines dir ! k) = {}"
    if "i < SIZE" "i \<noteq> k" for i
    using that k lines_ok[of dir] lines_disjoint[of i k dir] by (simp add: lines_length)
  show "\<forall>l \<in> set (take k (lines dir)). line_ok l \<and> set l \<inter> set (lines dir ! k) = {}"
  proof
    fix l assume "l \<in> set (take k (lines dir))"
    then obtain i where "i < k" "l = lines dir ! i"
      using kl by (auto simp: in_set_conv_nth)
    with any[of i] k show "line_ok l \<and> set l \<inter> set (lines dir ! k) = {}" by simp
  qed
  show "\<forall>l \<in> set (drop (Suc k) (lines dir)). line_ok l \<and> set l \<inter> set (lines dir ! k) = {}"
  proof
    fix l assume "l \<in> set (drop (Suc k) (lines dir))"
    then obtain i where i: "i < length (lines dir) - Suc k" "l = drop (Suc k) (lines dir) ! i"
      by (auto simp: in_set_conv_nth)
    then have "Suc k + i < SIZE" "l = lines dir ! (Suc k + i)"
      by (simp_all add: lines_length)
    with any[of "Suc k + i"] show "line_ok l \<and> set l \<inter> set (lines dir ! k) = {}"
      by simp
  qed
qed

lemma line_aabb_board:
  assumes ok: "board_ok ts" and ids: "distinct (map idT ts)" and k: "k < SIZE"
    and vals: "map (value_at ts) (lines dir ! k) = [Some a, Some a, Some b, Some b]"
  shows "\<exists>brd g x. resolved dir ts = Inr (brd, g, True) \<and>
           map (value_at brd) (lines dir ! k) = [Some (a * 2), Some (b * 2), None, None] \<and>
           gain_upto k dir ts = Inr x \<and> gain_upto (Suc k) dir ts = Inr (x + (a * 2 + b * 2))"
proof -
  let ?ts = "map clear_flags ts"
  let ?pre = "take k (lines dir)"
  let ?post = "drop (Suc k) (lines dir)"
  from lines_four[OF k, of dir] obtain c0 c1 c2 c3 where
    coords: "lines dir ! k = [c0, c1, c2, c3]" and cd: "distinct [c0, c1, c2, c3]"
    by blast
  note sp = lines_split[OF k, of dir]
  have lk: "line_ok (lines dir ! k)"
    using lines_ok[of dir] k by (simp add: lines_length)
  from ok have ok': "board_ok ?ts" by (rule board_ok_clear_flags)
  from build_grid_ok[OF ok'] obtain g0 where g0: "build_grid ?ts = Inr g0"
    and g2: "\<And>q. q < length ts \<Longrightarrow> g0 (pos (ts ! q)) = Some q"
    by auto
  let ?st0 = "init_state ?ts g0"
  have inv0: "loop_inv ?st0" using ok' g0 by (rule init_inv)
  have live0: "live ?st0"
    using ids by (simp add: live_def init_state_def comp_def)
  from ok have dp: "distinct (map pos ts)" by (simp add: board_ok_def)
  have at: "\<exists>p < length ts. pos (ts ! p) = c \<and> valueT (ts ! p) = v" if "value_at ts c = Some v" for c v
    using that value_at_Some[OF dp, of c v] by (auto simp: in_set_conv_nth)
  from vals coords have "value_at ts c0 = Some a" "value_at ts c1 = Some a"
    "value_at ts c2 = Some b" "value_at ts c3 = Some b"
    by simp_all
  then obtain p0 p1 p2 p3 where
    p: "p0 < length ts" "p1 < length ts" "p2 < length ts" "p3 < length ts"
    and pp: "pos (ts ! p0) = c0" "pos (ts ! p1) = c1" "pos (ts ! p2) = c2" "pos (ts ! p3) = c3"
    and pv: "valueT (ts ! p0) = a" "valueT (ts ! p1) = a" "valueT (ts ! p2) = b" "valueT (ts ! p3) = b"
    using at by metis
  have gp: "g0 c0 = Some p0" "g0 c1 = Some p1" "g0 c2 = Some p2" "g0 c3 = Some p3"
    using g2[OF p(1)] g2[OF p(2)] g2[OF p(3)] g2[OF p(4)] pp by simp_all
  \<comment> \<open>the lines before line \<open>k\<close>\<close>
  from resolve_lines_inv[OF _ inv0, of ?pre] sp(2)
  obtain sa where sa: "resolve_lines ?pre ?st0 = Inr sa" by blast
  from resolve_lines_agree[OF sp(2) inv0 live0 agree_refl sa]
  have inva: "loop_inv sa" and livea: "live sa" and aga: "agree (lines dir ! k) ?st0 sa"
    by simp_all
  have ga: "grid sa c = g0 c" "\<And>q. g0 c = Some q \<Longrightarrow> store sa ! q = ?ts ! q"
    if "c \<in> set [c0, c1, c2, c3]" for c
    using aga that unfolding agree_def coords by (auto simp: init_state_def)
  have gsa: "grid sa c0 = Some p0" "grid sa c1 = Some p1" "grid sa c2 = Some p2"
    "grid sa c3 = Some p3"
    using ga(1) gp by simp_all
  have ssa: "store sa ! p0 = clear_flags (ts ! p0)" "store sa ! p1 = clear_flags (ts ! p1)"
    "store sa ! p2 = clear_flags (ts ! p2)" "store sa ! p3 = clear_flags (ts ! p3)"
    using ga(2)[of c0 p0] ga(2)[of c1 p1] ga(2)[of c2 p2] ga(2)[of c3 p3] gp p by simp_all
  from inva have oka: "grid_ok sa" by (simp add: loop_inv_def)
  \<comment> \<open>line \<open>k\<close>\<close>
  have "\<exists>sb. resolve_line [c0, c1, c2, c3] sa = Inr sb \<and>
           grid sb c0 = Some p0 \<and> grid sb c1 = Some p2 \<and> grid sb c2 = None \<and> grid sb c3 = None \<and>
           valueT (store sb ! p0) = a * 2 \<and> valueT (store sb ! p2) = b * 2 \<and>
           merged (store sb ! p0) \<and> merged (store sb ! p2) \<and>
           scoreGain sb = scoreGain sa + (a * 2 + b * 2) \<and> moved sb \<and>
           toRemove sb = insert (idT (store sa ! p3)) (insert (idT (store sa ! p1)) (toRemove sa))"
    using cd oka gsa by (rule line_aabb) (simp_all add: ssa pv clear_flags_def)
  then obtain sb where sb: "resolve_line (lines dir ! k) sa = Inr sb"
    and gsb: "grid sb c0 = Some p0" "grid sb c1 = Some p2" "grid sb c2 = None" "grid sb c3 = None"
    and vsb: "valueT (store sb ! p0) = a * 2" "valueT (store sb ! p2) = b * 2"
    and gain: "scoreGain sb = scoreGain sa + (a * 2 + b * 2)" and mv: "moved sb"
    unfolding coords by blast
  from resolve_line_inv[OF lk inva] sb have invb: "loop_inv sb" by simp
  from resolve_line_live[OF lk inva livea sb] have liveb: "live sb" .
  \<comment> \<open>the lines after line \<open>k\<close>\<close>
  from resolve_lines_inv[OF _ invb, of ?post] sp(3)
  obtain st where st: "resolve_lines ?post sb = Inr st" by blast
  from resolve_lines_agree[OF sp(3) invb liveb agree_refl st] mv
  have inv: "loop_inv st" and lv: "live st" and ag: "agree (lines dir ! k) sb st" and m: "moved st"
    by simp_all
  have gf: "grid st c = grid sb c" "\<And>q. grid sb c = Some q \<Longrightarrow> store st ! q = store sb ! q"
    if "c \<in> set [c0, c1, c2, c3]" for c
    using ag that unfolding agree_def coords by auto
  have gst: "grid st c0 = Some p0" "grid st c1 = Some p2" "grid st c2 = None" "grid st c3 = None"
    using gf(1) gsb by simp_all
  have vst: "valueT (store st ! p0) = a * 2" "valueT (store st ! p2) = b * 2"
    using gf(2)[of c0 p0] gf(2)[of c1 p2] gsb vsb by simp_all
  have "resolve_lines (lines dir) ?st0 = Inr st"
    by (subst sp(1)) (simp add: resolve_lines_append sa sb st)
  then have r: "resolve dir ts = Inr st" using resolve_eq[OF g0] by simp
  then have rd: "resolved dir ts = Inr (filtered st, scoreGain st, True)"
    using m by (simp add: resolved_def)
  have va: "map (value_at (filtered st)) (lines dir ! k) = [Some (a * 2), Some (b * 2), None, None]"
    unfolding coords
    using filtered_value_at(1)[OF inv lv gst(1)] filtered_value_at(1)[OF inv lv gst(2)]
      filtered_value_at(2)[OF inv lv gst(3)] filtered_value_at(2)[OF inv lv gst(4)] vst
    by simp
  have g1: "gain_upto k dir ts = Inr (scoreGain sa)"
    using resolve_upto_eq[OF g0, of k dir] sa by (simp add: gain_upto_def)
  have "take (Suc k) (lines dir) = ?pre @ [lines dir ! k]"
    using k by (simp add: take_Suc_conv_app_nth lines_length)
  then have "resolve_upto (Suc k) dir ts = Inr sb"
    using resolve_upto_eq[OF g0, of "Suc k" dir] sa sb by (simp add: resolve_lines_append)
  then have g2: "gain_upto (Suc k) dir ts = Inr (scoreGain sa + (a * 2 + b * 2))"
    using gain by (simp add: gain_upto_def)
  from rd va g1 g2 show ?thesis
    by (intro exI[of _ "filtered st"] exI[of _ "scoreGain st"] exI[of _ "scoreGain sa"] conjI)
qed

lemma resolve_lines_preserves:
  assumes step: "\<And>coords st ti cur rest st' ti'. line_ok coords \<Longrightarrow> loop_inv st \<Longrightarrow> Q st \<Longrightarrow>
      lineTiles (grid st) (drop ti coords) = cur # rest \<Longrightarrow>
      place coords cur st ti = Inr (st', ti') \<Longrightarrow> Q st'"
  shows "\<forall>l \<in> set ls. line_ok l \<Longrightarrow> loop_inv st \<Longrightarrow> Q st \<Longrightarrow>
         resolve_lines ls st = Inr st' \<Longrightarrow> Q st'"
proof (induction ls arbitrary: st)
  case Nil
  then show ?case by simp
next
  case (Cons l ls)
  from Cons.prems(1) have l: "line_ok l" by simp
  from resolve_line_inv[OF l Cons.prems(2)]
  obtain st1 where s1: "resolve_line l st = Inr st1" "loop_inv st1" by blast
  have q1: "Q st1"
    using resolve_line_preserves[of l Q st st1] step[OF l] l Cons.prems(2,3) s1(1) by blast
  from Cons.prems(4) s1(1) have r: "resolve_lines ls st1 = Inr st'" by simp
  from Cons.prems(1) have "\<forall>l \<in> set ls. line_ok l" by simp
  from Cons.IH[OF this s1(2) q1 r] show ?case .
qed

lemma place_once:
  assumes inv: "loop_inv st" and on: "once ts st" and line: "line_ok coords"
    and lt: "lineTiles (grid st) (drop ti coords) = cur # rest"
    and pl: "place coords cur st ti = Inr (st', ti')"
  shows "once ts st'"
proof -
  from inv have ok: "grid_ok st" by (simp add: loop_inv_def)
  from line have dist: "distinct coords" by (simp add: line_ok_def)
  from on have len: "length (store st) = length ts"
    and each: "\<And>q. q < length ts \<Longrightarrow> idT (store st ! q) = idT (ts ! q) \<and>
         (merged (store st ! q) \<longrightarrow> valueT (store st ! q) = valueT (ts ! q) * 2) \<and>
         (\<not> merged (store st ! q) \<longrightarrow> valueT (store st ! q) = valueT (ts ! q))"
    by (simp_all add: once_def)
  from ok dist lt show ?thesis
  proof (cases rule: place_cases)
    case (merge j p)
    from grid_okD[OF ok merge(7)] have p: "p < length (store st)" by simp
    from merge(10) pl have st': "store st' = (store st)[p := (store st ! p)\<lparr>valueT := valueT (store st ! p) * 2,
                                                        merged := True\<rparr>]"
      by auto
    have "idT (store st' ! q) = idT (ts ! q) \<and>
         (merged (store st' ! q) \<longrightarrow> valueT (store st' ! q) = valueT (ts ! q) * 2) \<and>
         (\<not> merged (store st' ! q) \<longrightarrow> valueT (store st' ! q) = valueT (ts ! q))"
      if q: "q < length ts" for q
    proof (cases "q = p")
      case True
      with each[OF q] merge(9) p show ?thesis by (simp add: st')
    next
      case False
      with each[OF q] show ?thesis by (simp add: st')
    qed
    moreover have "length (store st') = length ts" using len by (simp add: st')
    ultimately show ?thesis unfolding once_def by blast
  next
    case (slide j)
    from grid_okD[OF ok slide(3)] have cur: "cur < length (store st)" by simp
    from slide(6) pl have st': "store st' = (store st)[cur := (store st ! cur)\<lparr>row := fst (coords ! ti),
                                                            col := snd (coords ! ti)\<rparr>]"
      by auto
    have "idT (store st' ! q) = idT (ts ! q) \<and>
         (merged (store st' ! q) \<longrightarrow> valueT (store st' ! q) = valueT (ts ! q) * 2) \<and>
         (\<not> merged (store st' ! q) \<longrightarrow> valueT (store st' ! q) = valueT (ts ! q))"
      if q: "q < length ts" for q
    proof (cases "q = cur")
      case True
      with each[OF q] cur show ?thesis by (simp add: st')
    next
      case False
      with each[OF q] show ?thesis by (simp add: st')
    qed
    moreover have "length (store st') = length ts" using len by (simp add: st')
    ultimately show ?thesis unfolding once_def by blast
  qed
qed

lemma resolved_merged_once:
  assumes ok: "board_ok ts" and r: "resolved dir ts = Inr (brd, g, m)"
  shows "merged_once ts brd"
proof -
  let ?ts = "map clear_flags ts"
  from r obtain st where st: "resolve dir ts = Inr st" "brd = filtered st"
    by (auto elim: resolved_Inr)
  from ok have ok': "board_ok ?ts" by (rule board_ok_clear_flags)
  from build_grid_ok[OF ok'] obtain g0 where g0: "build_grid ?ts = Inr g0" by blast
  have inv0: "loop_inv (init_state ?ts g0)" using ok' g0 by (rule init_inv)
  have on0: "once ts (init_state ?ts g0)"
    by (simp add: once_def init_state_def clear_flags_def)
  from st(1) resolve_eq[OF g0] have rl: "resolve_lines (lines dir) (init_state ?ts g0) = Inr st"
    by simp
  have on: "once ts st"
    using resolve_lines_preserves[of "once ts" "lines dir" "init_state ?ts g0" st]
      place_once lines_ok inv0 on0 rl
    by blast
  show ?thesis
    unfolding merged_once_def
  proof
    fix t' assume "t' \<in> set brd"
    then have "t' \<in> set (store st)" by (simp add: st(2) filtered_def)
    then obtain p where p: "p < length (store st)" "store st ! p = t'"
      by (auto simp: in_set_conv_nth)
    with on have pl: "p < length ts" and
      e: "idT t' = idT (ts ! p) \<and>
         (if merged t' then valueT t' = valueT (ts ! p) * 2 else valueT t' = valueT (ts ! p))"
      unfolding once_def by (metis, metis)
    from pl have "ts ! p \<in> set ts" by simp
    with e show "\<exists>t \<in> set ts. idT t' = idT t \<and>
        (if merged t' then valueT t' = valueT t * 2 else valueT t' = valueT t)"
      by blast
  qed
qed

lemma gain_upto_all:
  assumes "resolved dir ts = Inr (brd, g, m)"
  shows "gain_upto SIZE dir ts = Inr g"
proof -
  have t: "take SIZE (lines dir) = lines dir" by (simp add: lines_length)
  have "resolve_upto SIZE dir ts = resolve dir ts"
    by (simp only: resolve_upto_def resolve_def t)
  with assms show ?thesis
    by (auto simp: gain_upto_def elim: resolved_Inr)
qed

lemma gain_upto_0: "board_ok ts \<Longrightarrow> gain_upto 0 dir ts = Inr 0"
  using build_grid_ok[OF board_ok_clear_flags, of ts]
  by (auto simp: gain_upto_def resolve_upto_def)

lemma move_ids_ok:
  assumes ok: "board_ok (tiles s)" and io: "ids_ok (s, i)" and m: "move dir u1 u2 s i = Inr (s1, i1)"
  shows "ids_ok (s1, i1)"
proof -
  from m obtain st can where st: "resolve dir (tiles s) = Inr st"
    "(if moved st then randomSpawn (filtered st) i u1 u2 else Inr (filtered st, i)) = Inr (tiles s1, i1)"
    by (rule move_Inr)
  from resolve_unique(2)[OF ok st(1)] have ids: "map idT (store st) = map idT (tiles s)" .
  from arg_cong[OF ids, of set] have im: "idT ` set (store st) = idT ` set (tiles s)" by simp
  from io have d: "distinct (map idT (store st))"
    using ids by (simp add: ids_ok_def)
  from io have "\<forall>j \<in> idT ` set (tiles s). j < i" by (simp add: ids_ok_def)
  with im have b: "\<forall>t \<in> set (store st). idT t < i" by blast
  have fd: "distinct (map idT (filtered st))"
    using d by (simp add: filtered_def distinct_map_filter)
  have fb: "\<forall>t \<in> set (filtered st). idT t < i"
    using b by (simp add: filtered_def)
  show ?thesis
  proof (cases "moved st")
    case False
    with st(2) fd fb show ?thesis by (simp add: ids_ok_def)
  next
    case True
    with st(2) have "randomSpawn (filtered st) i u1 u2 = Inr (tiles s1, i1)" by simp
    from randomSpawn_cases[OF this] obtain c v where
      "(tiles s1 = filtered st \<and> i1 = i) \<or>
       (tiles s1 = filtered st @ [spawn_tile i c v] \<and> i1 = i + 1)"
      by blast
    then show ?thesis
    proof
      assume "tiles s1 = filtered st \<and> i1 = i"
      with fd fb show ?thesis by (simp add: ids_ok_def)
    next
      assume a: "tiles s1 = filtered st @ [spawn_tile i c v] \<and> i1 = i + 1"
      have n: "idT (spawn_tile i c v) = i" by (simp add: spawn_tile_def)
      from fb have fresh: "i \<notin> idT ` set (filtered st)" by blast
      have "\<forall>t \<in> set (filtered st). idT t < i + 1"
      proof
        fix t assume "t \<in> set (filtered st)"
        with fb have "idT t < i" by blast
        then show "idT t < i + 1" by simp
      qed
      with a fd n fresh show ?thesis by (simp add: ids_ok_def)
    qed
  qed
qed

lemma newGame_ids_ok:
  assumes "newGame v1 v2 v3 v4 s = Inr (s2, i2)"
  shows "ids_ok (s2, i2)"
proof -
  from newGame_cases[OF assms] obtain c1 c2 x1 x2 where
    "tiles s2 = [spawn_tile 1 c1 x1, spawn_tile 2 c2 x2]" "i2 = 3"
    by blast
  then show ?thesis by (simp add: ids_ok_def spawn_tile_def)
qed

lemma run_ids_ok:
  "state_ok (fst w) \<Longrightarrow> ids_ok w \<Longrightarrow> run ops w = Inr tr \<Longrightarrow> \<forall>w' \<in> set tr. ids_ok w'"
proof (induction ops arbitrary: w tr)
  case Nil
  then show ?case by simp
next
  case (Cons a ops)
  from Cons.prems(3) obtain w1 tr1 where s: "apply_op a w = Inr w1" "run ops w1 = Inr tr1"
      "tr = w1 # tr1"
    by (rule run_Cons)
  from apply_op_state_ok[OF Cons.prems(1) s(1)] have ok1: "state_ok (fst w1)" .
  have io1: "ids_ok w1"
  proof (cases a)
    case (Move dir u1 u2)
    with s(1) have m: "move dir u1 u2 (fst w) (snd w) = Inr (fst w1, snd w1)" by (cases w) simp
    from Cons.prems(1) have ok: "board_ok (tiles (fst w))" by (simp add: state_ok_def)
    from Cons.prems(2) have io: "ids_ok (fst w, snd w)" by simp
    from move_ids_ok[OF ok io m] show ?thesis by simp
  next
    case (NewGame v1 v2 v3 v4)
    with s(1) have "newGame v1 v2 v3 v4 (fst w) = Inr (fst w1, snd w1)" by (cases w) simp
    from newGame_ids_ok[OF this] show ?thesis by simp
  qed
  from Cons.IH[OF ok1 io1 s(2)] io1 s(3) show ?case by simp
qed

lemma ids_ok_startup: "ids_ok (startup b, 1)"
  by (simp add: ids_ok_def startup_def)

lemma lineTiles_empty: "\<forall>c \<in> set l. g c = None \<Longrightarrow> lineTiles g l = []"
  by (induction l) simp_all

lemma resolve_lines_empty:
  "\<forall>l \<in> set ls. \<forall>c \<in> set l. grid st c = None \<Longrightarrow> resolve_lines ls st = Inr st"
  by (induction ls) (simp_all add: resolve_line_def lineTiles_empty)

lemma gain_single_line:
  assumes ok: "board_ok ts" and k: "k < SIZE"
    and only: "\<forall>t \<in> set ts. pos t \<in> set (lines dir ! k)"
  shows "gain_upto k dir ts = Inr 0" and "gain_upto (Suc k) dir ts = gain_upto SIZE dir ts"
proof -
  let ?ts = "map clear_flags ts"
  let ?pre = "take k (lines dir)"
  let ?post = "drop (Suc k) (lines dir)"
  note sp = lines_split[OF k, of dir]
  have lk: "line_ok (lines dir ! k)"
    using lines_ok[of dir] k by (simp add: lines_length)
  from ok have ok': "board_ok ?ts" by (rule board_ok_clear_flags)
  from build_grid_ok[OF ok'] obtain g0 where g0: "build_grid ?ts = Inr g0"
    and g1: "\<And>c q. g0 c = Some q \<Longrightarrow> q < length ?ts \<and> pos (?ts ! q) = c"
    by blast
  let ?st0 = "init_state ?ts g0"
  have inv0: "loop_inv ?st0" using ok' g0 by (rule init_inv)
  have none: "g0 c = None" if c: "c \<notin> set (lines dir ! k)" for c
  proof (cases "g0 c")
    case None
    then show ?thesis .
  next
    case (Some q)
    from g1[OF Some] have q1: "q < length ts" by simp
    with g1[OF Some] have q: "q < length ts" "pos (ts ! q) = c" by simp_all
    from q(1) have "ts ! q \<in> set ts" by simp
    with only q(2) c show ?thesis by blast
  qed
  have e0: "\<forall>l \<in> set ?pre. \<forall>c \<in> set l. grid ?st0 c = None"
  proof (intro ballI)
    fix l c assume "l \<in> set ?pre" "c \<in> set l"
    with sp(2) have "c \<notin> set (lines dir ! k)" by blast
    from none[OF this] show "grid ?st0 c = None" by (simp add: init_state_def)
  qed
  from resolve_lines_empty[OF e0] have pre: "resolve_lines ?pre ?st0 = Inr ?st0" .
  from resolve_line_inv[OF lk inv0] obtain sb where sb: "resolve_line (lines dir ! k) ?st0 = Inr sb"
    by blast
  from resolve_line_frame[OF lk inv0 sb] have fr: "frame (lines dir ! k) ?st0 sb" .
  have e1: "\<forall>l \<in> set ?post. \<forall>c \<in> set l. grid sb c = None"
  proof (intro ballI)
    fix l c assume "l \<in> set ?post" "c \<in> set l"
    with sp(3) have c: "c \<notin> set (lines dir ! k)" by blast
    with fr have "grid sb c = grid ?st0 c" unfolding frame_def by blast
    with none[OF c] show "grid sb c = None" by (simp add: init_state_def)
  qed
  from resolve_lines_empty[OF e1] have post: "resolve_lines ?post sb = Inr sb" .
  show "gain_upto k dir ts = Inr 0"
    using resolve_upto_eq[OF g0, of k dir] pre by (simp add: gain_upto_def init_state_def)
  have "take (Suc k) (lines dir) = ?pre @ [lines dir ! k]"
    using k by (simp add: take_Suc_conv_app_nth lines_length)
  then have a: "resolve_upto (Suc k) dir ts = Inr sb"
    using resolve_upto_eq[OF g0, of "Suc k" dir] pre sb by (simp add: resolve_lines_append)
  have t: "take SIZE (lines dir) = lines dir" by (simp add: lines_length)
  have "resolve_lines (lines dir) ?st0 = Inr sb"
    by (subst sp(1)) (simp add: resolve_lines_append pre sb post)
  then have b: "resolve_upto SIZE dir ts = Inr sb"
    using resolve_upto_eq[OF g0, of SIZE dir] by (simp only: t)
  from a b show "gain_upto (Suc k) dir ts = gain_upto SIZE dir ts"
    by (simp add: gain_upto_def)
qed

lemma move_after_resolved:
  assumes r: "resolved dir (tiles s) = Inr (b, g, m)" and mv: "move dir x u2 s i = Inr (s1, i1)"
  shows "score s1 = score s + g \<and> take (length b) (tiles s1) = b"
proof -
  from mv obtain st can where st: "resolve dir (tiles s) = Inr st"
    "(if moved st then randomSpawn (filtered st) i x u2 else Inr (filtered st, i)) = Inr (tiles s1, i1)"
    "score s1 = score s + scoreGain st"
    by (rule move_Inr)
  from r st(1) have b: "b = filtered st" and g: "g = scoreGain st"
    by (auto elim: resolved_Inr)
  have "take (length b) (tiles s1) = b"
  proof (cases "moved st")
    case False
    with st(2) b show ?thesis by simp
  next
    case True
    with st(2) b have "randomSpawn b i x u2 = Inr (tiles s1, i1)" by simp
    from randomSpawn_cases[OF this] obtain c v where
      "tiles s1 = b \<or> tiles s1 = b @ [spawn_tile i c v]"
      by blast
    then show ?thesis by auto
  qed
  with st(3) g show ?thesis by simp
qed

text \<open>
  C1. On a well-formed board whose tiles have distinct ids, as the boards of the game
  have, let the four cells of a line, leading cell first, hold the values 2, 2, 2, 2.
  The loop over the lines then reports \<open>moved\<close> and leaves that line with 4 and 4 on
  its two leading cells and nothing on the other two, and the line adds 8 to
  \<^verbatim>\<open>scoreGain\<close>: the gain after the line is the gain before it plus 8, and
  \<^verbatim>\<open>scoreGain\<close> is 8 when the board has no tile outside the line. No surviving tile
  has been doubled more than once, and a move of this board adds \<^verbatim>\<open>scoreGain\<close> to the
  score and returns the tiles the loop left, followed by the spawned tile.
\<close>

theorem merge_2222_gives_4_4:
  assumes "board_ok ts" and "distinct (map idT ts)" and "k < SIZE"
    and "map (value_at ts) (lines dir ! k) = [Some 2, Some 2, Some 2, Some 2]"
  shows "\<exists>brd g x. resolved dir ts = Inr (brd, g, True) \<and>
           map (value_at brd) (lines dir ! k) = [Some 4, Some 4, None, None] \<and>
           gain_upto k dir ts = Inr x \<and> gain_upto (Suc k) dir ts = Inr (x + 8) \<and>
           gain_upto SIZE dir ts = Inr g \<and>
           ((\<forall>t \<in> set ts. pos t \<in> set (lines dir ! k)) \<longrightarrow> g = 8) \<and>
           merged_once ts brd \<and>
           (\<forall>s y u idSeq s1 i1. tiles s = ts \<and> move dir y u s idSeq = Inr (s1, i1) \<longrightarrow>
              score s1 = score s + g \<and> take (length brd) (tiles s1) = brd)"
proof -
  from line_aabb_board[OF assms(1,2,3), of dir 2 2] assms(4)
  obtain brd g x where r: "resolved dir ts = Inr (brd, g, True)"
    and l: "map (value_at brd) (lines dir ! k) = [Some 4, Some 4, None, None]"
    and g1: "gain_upto k dir ts = Inr x" and g2: "gain_upto (Suc k) dir ts = Inr (x + 8)"
    by auto
  from gain_upto_all[OF r] have g3: "gain_upto SIZE dir ts = Inr g" .
  have single: "(\<forall>t \<in> set ts. pos t \<in> set (lines dir ! k)) \<longrightarrow> g = 8"
  proof
    assume "\<forall>t \<in> set ts. pos t \<in> set (lines dir ! k)"
    from gain_single_line[OF assms(1,3) this] g1 g2 g3 show "g = 8" by simp
  qed
  from resolved_merged_once[OF assms(1) r] have mo: "merged_once ts brd" .
  have mv: "\<forall>s y u idSeq s1 i1. tiles s = ts \<and> move dir y u s idSeq = Inr (s1, i1) \<longrightarrow>
              score s1 = score s + g \<and> take (length brd) (tiles s1) = brd"
  proof (intro allI impI)
    fix s y u idSeq s1 i1
    assume a: "tiles s = ts \<and> move dir y u s idSeq = Inr (s1, i1)"
    with r have "resolved dir (tiles s) = Inr (brd, g, True)" by simp
    from move_after_resolved[OF this] a
    show "score s1 = score s + g \<and> take (length brd) (tiles s1) = brd" by blast
  qed
  from r l g1 g2 g3 single mo mv show ?thesis
    by (intro exI[of _ brd] exI[of _ g] exI[of _ x] conjI)
qed

theorem merge_2222_gives_4_4_witness:
  "board_ok board_2222 \<and> distinct (map idT board_2222) \<and> (1::nat) < SIZE \<and>
   map (value_at board_2222) (lines Right ! 1) = [Some 2, Some 2, Some 2, Some 2] \<and>
   resolved Right board_2222 =
     Inr ([tile 1 0 3 4, (tile 3 1 2 4)\<lparr>merged := True\<rparr>, (tile 5 1 3 4)\<lparr>merged := True\<rparr>,
           tile 6 3 3 2], 8, True) \<and>
   map (value_at [tile 1 0 3 4, (tile 3 1 2 4)\<lparr>merged := True\<rparr>, (tile 5 1 3 4)\<lparr>merged := True\<rparr>,
                  tile 6 3 3 2]) (lines Right ! 1) = [Some 4, Some 4, None, None] \<and>
   gain_upto 1 Right board_2222 = Inr 0 \<and> gain_upto 2 Right board_2222 = Inr 8 \<and>
   resolved Left row_2222 =
     Inr ([(tile 1 0 0 4)\<lparr>merged := True\<rparr>, (tile 3 0 1 4)\<lparr>merged := True\<rparr>], 8, True) \<and>
   map (value_at [(tile 1 0 0 4)\<lparr>merged := True\<rparr>, (tile 3 0 1 4)\<lparr>merged := True\<rparr>])
     (lines Left ! 0) = [Some 4, Some 4, None, None]"
proof -
  let ?b = "[tile 1 0 3 4, (tile 3 1 2 4)\<lparr>merged := True\<rparr>, (tile 5 1 3 4)\<lparr>merged := True\<rparr>,
             tile 6 3 3 2]"
  let ?c = "[(tile 1 0 0 4)\<lparr>merged := True\<rparr>, (tile 3 0 1 4)\<lparr>merged := True\<rparr>]"
  have ok: "board_ok board_2222" unfolding board_2222_def tile_def by code_simp
  have d: "distinct (map idT board_2222)" unfolding board_2222_def tile_def by code_simp
  have k: "(1::nat) < SIZE" by (simp add: SIZE_def)
  have v: "map (value_at board_2222) (lines Right ! 1) = [Some 2, Some 2, Some 2, Some 2]"
    unfolding board_2222_def tile_def by code_simp
  have r: "resolved Right board_2222 = Inr (?b, 8, True)"
    unfolding board_2222_def tile_def by code_simp
  have g1: "gain_upto 1 Right board_2222 = Inr 0"
    unfolding board_2222_def tile_def by code_simp
  have s2: "Suc 1 = 2" by simp
  from merge_2222_gives_4_4[OF ok d k v]
  obtain brd g x where e: "resolved Right board_2222 = Inr (brd, g, True)"
    "map (value_at brd) (lines Right ! 1) = [Some 4, Some 4, None, None]"
    "gain_upto 1 Right board_2222 = Inr x" "gain_upto (Suc 1) Right board_2222 = Inr (x + 8)"
    by (elim exE conjE) (rule that, assumption+)
  from e(1) r have bq: "brd = ?b" by simp
  from e(3) g1 have x0: "x = 0" by simp
  have a: "map (value_at ?b) (lines Right ! 1) = [Some 4, Some 4, None, None]"
    using e(2) unfolding bq .
  have g2: "gain_upto 2 Right board_2222 = Inr 8"
    using e(4) unfolding x0 s2 by simp
  have d0: "distinct (map idT row_2222)" unfolding row_2222_def tile_def by code_simp
  have k0: "(0::nat) < SIZE" by (simp add: SIZE_def)
  have v0: "map (value_at row_2222) (lines Left ! 0) = [Some 2, Some 2, Some 2, Some 2]"
    unfolding row_2222_def tile_def by code_simp
  from merge_2222_gives_4_4[OF board_ok_row_2222 d0 k0 v0]
  obtain brd0 g0 where e0: "resolved Left row_2222 = Inr (brd0, g0, True)"
    "map (value_at brd0) (lines Left ! 0) = [Some 4, Some 4, None, None]"
    by (elim exE conjE) (rule that, assumption+)
  from e0(1) resolved_row_2222 have bq0: "brd0 = ?c" by simp
  have b: "map (value_at ?c) (lines Left ! 0) = [Some 4, Some 4, None, None]"
    using e0(2) unfolding bq0 .
  from ok d k v r a g1 g2 resolved_row_2222 b show ?thesis by blast
qed

text \<open>
  C2. With the values 2, 2, 4, 4 on the four cells of a line, leading cell first, the
  loop leaves 4 and 8 on the two leading cells of the line and nothing on the other
  two, and the line adds 12 to \<^verbatim>\<open>scoreGain\<close>. The 4 made of the two 2s does not merge
  with the 4 that follows it: in the board the loop leaves, every tile is a tile of
  the board before the move with the same id, and its value is the value it had, or
  twice that value when its flag \<^verbatim>\<open>merged\<close> is set; no value is doubled twice.
\<close>

theorem merge_2244_gives_4_8:
  assumes "board_ok ts" and "distinct (map idT ts)" and "k < SIZE"
    and "map (value_at ts) (lines dir ! k) = [Some 2, Some 2, Some 4, Some 4]"
  shows "\<exists>brd g x. resolved dir ts = Inr (brd, g, True) \<and>
           map (value_at brd) (lines dir ! k) = [Some 4, Some 8, None, None] \<and>
           gain_upto k dir ts = Inr x \<and> gain_upto (Suc k) dir ts = Inr (x + 12) \<and>
           gain_upto SIZE dir ts = Inr g \<and>
           ((\<forall>t \<in> set ts. pos t \<in> set (lines dir ! k)) \<longrightarrow> g = 12) \<and>
           (\<forall>t' \<in> set brd. \<exists>t \<in> set ts. idT t' = idT t \<and>
              (if merged t' then valueT t' = valueT t * 2 else valueT t' = valueT t)) \<and>
           (\<forall>s y u idSeq s1 i1. tiles s = ts \<and> move dir y u s idSeq = Inr (s1, i1) \<longrightarrow>
              score s1 = score s + g \<and> take (length brd) (tiles s1) = brd)"
proof -
  from line_aabb_board[OF assms(1,2,3), of dir 2 4] assms(4)
  obtain brd g x where r: "resolved dir ts = Inr (brd, g, True)"
    and l: "map (value_at brd) (lines dir ! k) = [Some 4, Some 8, None, None]"
    and g1: "gain_upto k dir ts = Inr x" and g2: "gain_upto (Suc k) dir ts = Inr (x + 12)"
    by auto
  from gain_upto_all[OF r] have g3: "gain_upto SIZE dir ts = Inr g" .
  have single: "(\<forall>t \<in> set ts. pos t \<in> set (lines dir ! k)) \<longrightarrow> g = 12"
  proof
    assume "\<forall>t \<in> set ts. pos t \<in> set (lines dir ! k)"
    from gain_single_line[OF assms(1,3) this] g1 g2 g3 show "g = 12" by simp
  qed
  from resolved_merged_once[OF assms(1) r]
  have mo: "\<forall>t' \<in> set brd. \<exists>t \<in> set ts. idT t' = idT t \<and>
              (if merged t' then valueT t' = valueT t * 2 else valueT t' = valueT t)"
    by (simp only: merged_once_def)
  have mv: "\<forall>s y u idSeq s1 i1. tiles s = ts \<and> move dir y u s idSeq = Inr (s1, i1) \<longrightarrow>
              score s1 = score s + g \<and> take (length brd) (tiles s1) = brd"
  proof (intro allI impI)
    fix s y u idSeq s1 i1
    assume a: "tiles s = ts \<and> move dir y u s idSeq = Inr (s1, i1)"
    with r have "resolved dir (tiles s) = Inr (brd, g, True)" by simp
    from move_after_resolved[OF this] a
    show "score s1 = score s + g \<and> take (length brd) (tiles s1) = brd" by blast
  qed
  from r l g1 g2 g3 single mo mv show ?thesis
    by (intro exI[of _ brd] exI[of _ g] exI[of _ x] conjI)
qed

theorem merge_2244_gives_4_8_witness:
  "board_ok col_2244 \<and> distinct (map idT col_2244) \<and> (1::nat) < SIZE \<and>
   map (value_at col_2244) (lines Up ! 1) = [Some 2, Some 2, Some 4, Some 4] \<and>
   resolved Up col_2244 =
     Inr ([(tile 1 0 1 4)\<lparr>merged := True\<rparr>, (tile 3 1 1 8)\<lparr>merged := True\<rparr>, tile 5 0 3 2],
          12, True) \<and>
   map (value_at [(tile 1 0 1 4)\<lparr>merged := True\<rparr>, (tile 3 1 1 8)\<lparr>merged := True\<rparr>, tile 5 0 3 2])
     (lines Up ! 1) = [Some 4, Some 8, None, None] \<and>
   gain_upto 1 Up col_2244 = Inr 0 \<and> gain_upto 2 Up col_2244 = Inr 12 \<and>
   move Up 5 (1 / 2) (game col_2244) 6 =
     Inr (\<lparr>tiles = [(tile 1 0 1 4)\<lparr>merged := True\<rparr>, (tile 3 1 1 8)\<lparr>merged := True\<rparr>,
                     tile 5 0 3 2, (tile 6 2 0 2)\<lparr>spawned := True\<rparr>],
            score = 40, best = 40, won = False, over = False\<rparr>, 7) \<and>
   score (game col_2244) + 12 = 40"
proof -
  let ?b = "[(tile 1 0 1 4)\<lparr>merged := True\<rparr>, (tile 3 1 1 8)\<lparr>merged := True\<rparr>, tile 5 0 3 2]"
  have ok: "board_ok col_2244" unfolding col_2244_def tile_def by code_simp
  have d: "distinct (map idT col_2244)" unfolding col_2244_def tile_def by code_simp
  have k: "(1::nat) < SIZE" by (simp add: SIZE_def)
  have v: "map (value_at col_2244) (lines Up ! 1) = [Some 2, Some 2, Some 4, Some 4]"
    unfolding col_2244_def tile_def by code_simp
  have r: "resolved Up col_2244 = Inr (?b, 12, True)"
    unfolding col_2244_def tile_def by code_simp
  have g1: "gain_upto 1 Up col_2244 = Inr 0"
    unfolding col_2244_def tile_def by code_simp
  have m: "move Up 5 (1 / 2) (game col_2244) 6 =
     Inr (\<lparr>tiles = [(tile 1 0 1 4)\<lparr>merged := True\<rparr>, (tile 3 1 1 8)\<lparr>merged := True\<rparr>,
                     tile 5 0 3 2, (tile 6 2 0 2)\<lparr>spawned := True\<rparr>],
            score = 40, best = 40, won = False, over = False\<rparr>, 7)"
    unfolding game_def col_2244_def tile_def by code_simp
  have t: "tiles (game col_2244) = col_2244" by (simp add: game_def)
  have s2: "Suc 1 = 2" by simp
  from merge_2244_gives_4_8[OF ok d k v]
  obtain brd g x where e: "resolved Up col_2244 = Inr (brd, g, True)"
    "map (value_at brd) (lines Up ! 1) = [Some 4, Some 8, None, None]"
    "gain_upto 1 Up col_2244 = Inr x" "gain_upto (Suc 1) Up col_2244 = Inr (x + 12)"
    "\<forall>s y u idSeq s1 i1. tiles s = col_2244 \<and> move Up y u s idSeq = Inr (s1, i1) \<longrightarrow>
              score s1 = score s + g \<and> take (length brd) (tiles s1) = brd"
    by (elim exE conjE) (rule that, assumption+)
  from e(1) r have bq: "brd = ?b" and gq: "g = 12" by simp_all
  from e(3) g1 have x0: "x = 0" by simp
  have a: "map (value_at ?b) (lines Up ! 1) = [Some 4, Some 8, None, None]"
    using e(2) unfolding bq .
  have g2: "gain_upto 2 Up col_2244 = Inr 12"
    using e(4) unfolding x0 s2 by simp
  from e(5) t m have "score \<lparr>tiles = [(tile 1 0 1 4)\<lparr>merged := True\<rparr>, (tile 3 1 1 8)\<lparr>merged := True\<rparr>,
                     tile 5 0 3 2, (tile 6 2 0 2)\<lparr>spawned := True\<rparr>],
            score = 40, best = 40, won = False, over = False\<rparr> = score (game col_2244) + g"
    by blast
  then have "score (game col_2244) + 12 = 40" unfolding gq by simp
  with ok d k v r a g1 g2 m show ?thesis by blast
qed

end
